theory Spec2Isabelle
  imports Complex_Main "HOL-Library.Multiset"
begin

section \<open>Data model (types.ts)\<close>

datatype Suit = HEARTS | DIAMONDS | CLUBS | SPADES

datatype Rank = TWO | THREE | FOUR | FIVE | SIX | SEVEN | EIGHT | NINE | TEN
  | JACK | QUEEN | KING | ACE

text \<open>The string value of each enum member, as the template strings of
  \<^verbatim>\<open>generateDeck\<close> print it.\<close>

fun suit_str :: "Suit \<Rightarrow> string" where
  "suit_str HEARTS = ''H''"
| "suit_str DIAMONDS = ''D''"
| "suit_str CLUBS = ''C''"
| "suit_str SPADES = ''S''"

fun rank_str :: "Rank \<Rightarrow> string" where
  "rank_str TWO = ''2''"
| "rank_str THREE = ''3''"
| "rank_str FOUR = ''4''"
| "rank_str FIVE = ''5''"
| "rank_str SIX = ''6''"
| "rank_str SEVEN = ''7''"
| "rank_str EIGHT = ''8''"
| "rank_str NINE = ''9''"
| "rank_str TEN = ''0''"
| "rank_str JACK = ''J''"
| "rank_str QUEEN = ''Q''"
| "rank_str KING = ''K''"
| "rank_str ACE = ''A''"

text \<open>\<^verbatim>\<open>CardData\<close>. The fields \<^verbatim>\<open>image\<close> and \<^verbatim>\<open>id\<close> are
  named \<open>image_url\<close> and \<open>card_id\<close> here, since \<open>image\<close> and \<open>id\<close> are constants of HOL.\<close>

record CardData =
  suit :: Suit
  rank :: Rank
  code :: string
  image_url :: string
  card_id :: string

text \<open>\<^verbatim>\<open>GridCell = CardData | null\<close>: \<open>None\<close> is the hole. A read beyond the end
  of a JavaScript array gives \<^verbatim>\<open>undefined\<close>, which every truthiness test of the engine
  treats as it treats \<^verbatim>\<open>null\<close>; \<open>cellAt\<close> is that read. The one strict comparison with
  \<^verbatim>\<open>null\<close> (in \<^verbatim>\<open>isRowComplete\<close>) tests the length separately.\<close>

type_synonym GridCell = "CardData option"

type_synonym Grid = "GridCell list list"

definition cellAt :: "GridCell list \<Rightarrow> nat \<Rightarrow> GridCell" where
  "cellAt row c = (if c < length row then row ! c else None)"

text \<open>\<^verbatim>\<open>row[c] = v\<close>: an assignment beyond the end extends the array.\<close>

definition setAt :: "GridCell list \<Rightarrow> nat \<Rightarrow> GridCell \<Rightarrow> GridCell list" where
  "setAt row c v =
     (if c < length row then row[c := v]
      else row @ replicate (c - length row) None @ [v])"

text \<open>\<^verbatim>\<open>grid[r][c] = v\<close>, for a row \<open>r\<close> that exists.\<close>

definition setCell :: "Grid \<Rightarrow> nat \<Rightarrow> nat \<Rightarrow> GridCell \<Rightarrow> Grid" where
  "setCell g r c v = g[r := setAt (g ! r) c v]"

datatype error = DeckRanOut | TypeError

section \<open>Rank values\<close>

definition RANKS :: "Rank list" where
  "RANKS = [TWO, THREE, FOUR, FIVE, SIX, SEVEN, EIGHT, NINE, TEN, JACK, QUEEN, KING, ACE]"

definition SUITS :: "Suit list" where
  "SUITS = [HEARTS, DIAMONDS, CLUBS, SPADES]"

text \<open>\<^verbatim>\<open>Array.prototype.indexOf\<close>: the first index of the element, or -1.\<close>

fun indexOf :: "'a list \<Rightarrow> 'a \<Rightarrow> int" where
  "indexOf [] x = -1"
| "indexOf (y # ys) x =
     (if y = x then 0 else (let k = indexOf ys x in if k < 0 then -1 else k + 1))"

definition getRankValue :: "Rank \<Rightarrow> int" where
  "getRankValue r = indexOf RANKS r + 2"

section \<open>The random source\<close>

text \<open>\<^verbatim>\<open>Math.random()\<close> is a stream of numbers: \<open>rnd k\<close> is the value of the
  \<open>k\<close>-th call, and every function that draws returns the number of calls made so far.
  The contract of \<^verbatim>\<open>Math.random\<close> is that each value lies in [0, 1).\<close>

definition rnd_ok :: "(nat \<Rightarrow> real) \<Rightarrow> bool" where
  "rnd_ok rnd = (\<forall>k. 0 \<le> rnd k \<and> rnd k < 1)"

text \<open>\<^verbatim>\<open>[a[i], a[j]] = [a[j], a[i]]\<close>: both reads happen before both writes. In the
  loops below \<open>i\<close> is an index of the array, and a draw in [0, 1) makes \<open>j\<close> at most \<open>i\<close>.\<close>

definition swap :: "nat \<Rightarrow> nat \<Rightarrow> 'a list \<Rightarrow> 'a list" where
  "swap i j xs = xs[i := xs ! j, j := xs ! i]"

text \<open>The Fisher-Yates loop, which the source writes out three times (in
  \<^verbatim>\<open>shuffleDeck\<close> and twice in \<^verbatim>\<open>reshuffleBoard\<close>):
  \<^verbatim>\<open>for (let i = a.length - 1; i > 0; i--) { const j = Math.floor(Math.random() * (i + 1)); swap }\<close>.
  The second argument is the loop variable \<open>i\<close>.\<close>

fun fisherYates :: "(nat \<Rightarrow> real) \<Rightarrow> nat \<Rightarrow> nat \<Rightarrow> 'a list \<Rightarrow> 'a list \<times> nat" where
  "fisherYates rnd 0 k xs = (xs, k)"
| "fisherYates rnd (Suc m) k xs =
     (let i = Suc m;
          j = nat \<lfloor>rnd k * real (i + 1)\<rfloor>
      in fisherYates rnd m (Suc k) (swap i j xs))"

section \<open>Board initializer\<close>

text \<open>\<open>tag x\<close> stands for \<^verbatim>\<open>x.toString(36).substr(2, 9)\<close>, the base-36 digits of a
  random number; it is a parameter of the model.\<close>

definition mkCard :: "(real \<Rightarrow> string) \<Rightarrow> real \<Rightarrow> Suit \<Rightarrow> Rank \<Rightarrow> CardData" where
  "mkCard tag x s r =
     \<lparr> suit = s, rank = r,
       code = rank_str r @ suit_str s,
       image_url = ''https://deckofcardsapi.com/static/img/'' @ rank_str r @ suit_str s @ ''.png'',
       card_id = rank_str r @ suit_str s @ ''-'' @ tag x \<rparr>"

fun generateDeck_ranks ::
  "(real \<Rightarrow> string) \<Rightarrow> (nat \<Rightarrow> real) \<Rightarrow> Suit \<Rightarrow> Rank list \<Rightarrow> CardData list \<times> nat
     \<Rightarrow> CardData list \<times> nat" where
  "generateDeck_ranks tag rnd s [] (deck, k) = (deck, k)"
| "generateDeck_ranks tag rnd s (r # rs) (deck, k) =
     generateDeck_ranks tag rnd s rs (deck @ [mkCard tag (rnd k) s r], Suc k)"

fun generateDeck_suits ::
  "(real \<Rightarrow> string) \<Rightarrow> (nat \<Rightarrow> real) \<Rightarrow> Suit list \<Rightarrow> CardData list \<times> nat
     \<Rightarrow> CardData list \<times> nat" where
  "generateDeck_suits tag rnd [] (deck, k) = (deck, k)"
| "generateDeck_suits tag rnd (s # ss) (deck, k) =
     generateDeck_suits tag rnd ss (generateDeck_ranks tag rnd s RANKS (deck, k))"

definition generateDeck :: "(real \<Rightarrow> string) \<Rightarrow> (nat \<Rightarrow> real) \<Rightarrow> nat \<Rightarrow> CardData list \<times> nat" where
  "generateDeck tag rnd k = generateDeck_suits tag rnd SUITS ([], k)"

definition shuffleDeck :: "(nat \<Rightarrow> real) \<Rightarrow> nat \<Rightarrow> CardData list \<Rightarrow> CardData list \<times> nat" where
  "shuffleDeck rnd k deck = fisherYates rnd (length deck - 1) k deck"

text \<open>The inner loop of \<^verbatim>\<open>initializeBoard\<close>: \<open>n\<close> cells are still to be dealt into
  \<open>row\<close>. \<^verbatim>\<open>deck.pop()\<close> takes the last card; on an empty deck it gives
  \<^verbatim>\<open>undefined\<close> and the function throws.\<close>

fun dealRow :: "nat \<Rightarrow> CardData list \<Rightarrow> GridCell list \<Rightarrow> error + (GridCell list \<times> CardData list)" where
  "dealRow 0 deck row = Inr (row, deck)"
| "dealRow (Suc n) deck row =
     (if deck = [] then Inl DeckRanOut
      else (let crd = last deck; deck' = butlast deck
            in if rank crd = ACE then dealRow n deck' (row @ [None])
               else dealRow n deck' (row @ [Some crd])))"

fun dealRows :: "nat \<Rightarrow> CardData list \<Rightarrow> Grid \<Rightarrow> error + Grid" where
  "dealRows 0 deck rows = Inr rows"
| "dealRows (Suc n) deck rows =
     (case dealRow 13 deck [] of
        Inl e \<Rightarrow> Inl e
      | Inr (row, deck') \<Rightarrow> dealRows n deck' (rows @ [row]))"

definition initializeBoard :: "(real \<Rightarrow> string) \<Rightarrow> (nat \<Rightarrow> real) \<Rightarrow> error + Grid" where
  "initializeBoard tag rnd =
     (let (deck0, k0) = generateDeck tag rnd 0;
          (deck, k) = shuffleDeck rnd k0 deck0
      in dealRows 4 deck [])"

section \<open>Move legality\<close>

text \<open>\<^verbatim>\<open>grid[targetRow]\<close> of a row that does not exist is \<^verbatim>\<open>undefined\<close>, and indexing
  it throws a TypeError. The parameter \<^verbatim>\<open>card\<close> is named \<open>crd\<close>, since \<open>card\<close> is the
  cardinality of HOL.\<close>

definition canPlaceCard :: "CardData \<Rightarrow> nat \<Rightarrow> nat \<Rightarrow> Grid \<Rightarrow> error + bool" where
  "canPlaceCard crd targetRow targetCol grid =
     (if targetCol = 0 then Inr (rank crd = TWO)
      else if \<not> targetRow < length grid then Inl TypeError
      else (case cellAt (grid ! targetRow) (targetCol - 1) of
              None \<Rightarrow> Inr False
            | Some leftNeighbor \<Rightarrow>
                if rank leftNeighbor = KING then Inr False
                else if suit crd \<noteq> suit leftNeighbor then Inr False
                else (let leftVal = getRankValue (rank leftNeighbor);
                          currentVal = getRankValue (rank crd)
                      in Inr (currentVal = leftVal + 1))))"

section \<open>Win detection\<close>

text \<open>The loop \<^verbatim>\<open>for (let i = 0; i < 12; i++)\<close> of \<^verbatim>\<open>isRowComplete\<close>.\<close>

function isRowComplete_loop :: "Suit \<Rightarrow> GridCell list \<Rightarrow> nat \<Rightarrow> bool" where
  "isRowComplete_loop s row i =
     (if i < 12 then
        (case cellAt row i of
           None \<Rightarrow> False
         | Some cell \<Rightarrow>
             if suit cell \<noteq> s then False
             else if getRankValue (rank cell) \<noteq> int i + 2 then False
             else isRowComplete_loop s row (i + 1))
      else True)"
  by pat_completeness auto
termination
  by (relation "measure (\<lambda>(s, row, i). 12 - i)") auto

text \<open>\<^verbatim>\<open>row[12] !== null\<close> holds of a card and of \<^verbatim>\<open>undefined\<close> (a row of fewer than
  13 cells).\<close>

definition isRowComplete :: "GridCell list \<Rightarrow> bool" where
  "isRowComplete row =
     (if \<not> (12 < length row \<and> row ! 12 = None) then False
      else (case cellAt row 0 of
              None \<Rightarrow> False
            | Some c0 \<Rightarrow>
                if rank c0 \<noteq> TWO then False
                else isRowComplete_loop (suit c0) row 0))"

fun checkWinCondition :: "Grid \<Rightarrow> bool" where
  "checkWinCondition [] = True"
| "checkWinCondition (row # rows) =
     (if \<not> isRowComplete row then False else checkWinCondition rows)"

section \<open>Scoring and lock detection\<close>

text \<open>The inner loop of \<^verbatim>\<open>calculateScore\<close>, on the cells from index \<open>i\<close> on:
  \<open>v\<close> is \<^verbatim>\<open>currentRankVal\<close>, \<open>s\<close> is \<^verbatim>\<open>currentSuit\<close>; a \<^verbatim>\<open>break\<close> returns the
  score reached.\<close>

fun calculateScore_run :: "Suit \<Rightarrow> int \<Rightarrow> GridCell list \<Rightarrow> int \<Rightarrow> int" where
  "calculateScore_run s v [] score = score"
| "calculateScore_run s v (cell # cells) score =
     (case cell of
        None \<Rightarrow> score
      | Some c \<Rightarrow>
          if suit c \<noteq> s then score
          else (let val = getRankValue (rank c)
                in if val = v + 1 then calculateScore_run s val cells (score + val)
                   else score))"

fun calculateScore_rows :: "Grid \<Rightarrow> int \<Rightarrow> int" where
  "calculateScore_rows [] score = score"
| "calculateScore_rows (row # rows) score =
     (case cellAt row 0 of
        None \<Rightarrow> calculateScore_rows rows score
      | Some c0 \<Rightarrow>
          if rank c0 \<noteq> TWO then calculateScore_rows rows score
          else calculateScore_rows rows (calculateScore_run (suit c0) 2 (tl row) (score + 2)))"

definition calculateScore :: "Grid \<Rightarrow> int" where
  "calculateScore grid = calculateScore_rows grid 0"

fun getLockedCards_run :: "Suit \<Rightarrow> int \<Rightarrow> GridCell list \<Rightarrow> string set \<Rightarrow> string set" where
  "getLockedCards_run s v [] locked = locked"
| "getLockedCards_run s v (cell # cells) locked =
     (case cell of
        None \<Rightarrow> locked
      | Some c \<Rightarrow>
          if suit c \<noteq> s then locked
          else (let val = getRankValue (rank c)
                in if val = v + 1 then getLockedCards_run s val cells (insert (card_id c) locked)
                   else locked))"

fun getLockedCards_rows :: "Grid \<Rightarrow> string set \<Rightarrow> string set" where
  "getLockedCards_rows [] locked = locked"
| "getLockedCards_rows (row # rows) locked =
     (case cellAt row 0 of
        None \<Rightarrow> getLockedCards_rows rows locked
      | Some c0 \<Rightarrow>
          if rank c0 \<noteq> TWO then getLockedCards_rows rows locked
          else getLockedCards_rows rows
                 (getLockedCards_run (suit c0) 2 (tl row) (insert (card_id c0) locked)))"

definition getLockedCards :: "Grid \<Rightarrow> string set" where
  "getLockedCards grid = getLockedCards_rows grid {}"

section \<open>Reshuffle\<close>

definition rows :: nat where "rows = 4"

definition cols :: nat where "cols = 13"

text \<open>The state of step 1 of \<^verbatim>\<open>reshuffleBoard\<close>: the copy of the grid and the two
  collections.\<close>

record scan =
  newGrid :: Grid
  cardsToShuffle :: "CardData list"
  positionsToFill :: "(nat \<times> nat) list"

text \<open>The block that the source repeats in its three collecting branches:
  \<^verbatim>\<open>if (cell) cardsToShuffle.push(cell); positionsToFill.push({r, c}); newGrid[r][c] = null\<close>.\<close>

definition collect :: "nat \<Rightarrow> nat \<Rightarrow> scan \<Rightarrow> scan" where
  "collect r c st =
     (let cell = cellAt (newGrid st ! r) c
      in \<lparr> newGrid = setCell (newGrid st) r c None,
           cardsToShuffle = (case cell of None \<Rightarrow> cardsToShuffle st
                             | Some crd \<Rightarrow> cardsToShuffle st @ [crd]),
           positionsToFill = positionsToFill st @ [(r, c)] \<rparr>)"

text \<open>The body of the loop over \<open>c\<close>; the flag is \<^verbatim>\<open>isSequence\<close>.\<close>

definition scanCell :: "nat \<Rightarrow> nat \<Rightarrow> bool \<times> scan \<Rightarrow> bool \<times> scan" where
  "scanCell r c = (\<lambda>(isSequence, st).
     if isSequence then
       (if c = 0 then
          (if \<not> isSequence then (isSequence, collect r c st) else (isSequence, st))
        else
          (let prev = cellAt (newGrid st ! r) (c - 1);
               curr = cellAt (newGrid st ! r) c
           in case (curr, prev) of
                (Some cu, Some pr) \<Rightarrow>
                  if suit cu = suit pr \<and> getRankValue (rank cu) = getRankValue (rank pr) + 1
                  then (isSequence, st)
                  else (False, collect r c st)
              | _ \<Rightarrow> (False, collect r c st)))
     else (isSequence, collect r c st))"

text \<open>The body of the loop over \<open>r\<close>. \<^verbatim>\<open>newGrid[r][0]\<close> throws a TypeError when the
  grid has no row \<open>r\<close>.\<close>

definition scanRow :: "nat \<Rightarrow> scan \<Rightarrow> error + scan" where
  "scanRow r st =
     (if \<not> r < length (newGrid st) then Inl TypeError
      else (let isSequence = (case cellAt (newGrid st ! r) 0 of
                                None \<Rightarrow> False
                              | Some c0 \<Rightarrow> rank c0 = TWO)
            in Inr (snd (fold (scanCell r) [0..<cols] (isSequence, st)))))"

fun scanRows :: "nat list \<Rightarrow> scan \<Rightarrow> error + scan" where
  "scanRows [] st = Inr st"
| "scanRows (r # rs) st =
     (case scanRow r st of Inl e \<Rightarrow> Inl e | Inr st' \<Rightarrow> scanRows rs st')"

text \<open>Step 1 as a whole: the copy \<^verbatim>\<open>currentGrid.map(row => [...row])\<close> and the scan.\<close>

definition collectFree :: "Grid \<Rightarrow> error + scan" where
  "collectFree currentGrid =
     scanRows [0..<rows]
       \<lparr> newGrid = currentGrid, cardsToShuffle = [], positionsToFill = [] \<rparr>"

text \<open>Step 3: \<^verbatim>\<open>while (fillItems.length < positionsToFill.length) fillItems.push(null)\<close>.\<close>

function padItems :: "GridCell list \<Rightarrow> nat \<Rightarrow> GridCell list" where
  "padItems fillItems n =
     (if length fillItems < n then padItems (fillItems @ [None]) n else fillItems)"
  by pat_completeness auto
termination
  by (relation "measure (\<lambda>(fillItems, n). n - length fillItems)") auto

text \<open>Step 4: \<^verbatim>\<open>positionsToFill.forEach((pos, idx) => newGrid[pos.r][pos.c] = fillItems[idx])\<close>.\<close>

fun assignBack :: "(nat \<times> nat) list \<Rightarrow> nat \<Rightarrow> GridCell list \<Rightarrow> Grid \<Rightarrow> Grid" where
  "assignBack [] idx fillItems g = g"
| "assignBack ((r, c) # ps) idx fillItems g =
     assignBack ps (idx + 1) fillItems (setCell g r c (cellAt fillItems idx))"

definition reshuffleBoard :: "(nat \<Rightarrow> real) \<Rightarrow> Grid \<Rightarrow> error + Grid" where
  "reshuffleBoard rnd currentGrid =
     (case collectFree currentGrid of
        Inl e \<Rightarrow> Inl e
      | Inr st \<Rightarrow>
          (let (shuffled, k) =
                 fisherYates rnd (length (cardsToShuffle st) - 1) 0 (cardsToShuffle st);
               fillItems0 = padItems (map Some shuffled) (length (positionsToFill st));
               (fillItems, k') = fisherYates rnd (length fillItems0 - 1) k fillItems0
           in Inr (assignBack (positionsToFill st) 0 fillItems (newGrid st))))"

section \<open>Auxiliary notions for the properties\<close>

text \<open>A structurally valid grid: four rows of thirteen cells.\<close>

definition valid_grid :: "Grid \<Rightarrow> bool" where
  "valid_grid g = (length g = rows \<and> (\<forall>row \<in> set g. length row = cols))"

text \<open>The cards of a list of cells, in order.\<close>

primrec cardsOf :: "GridCell list \<Rightarrow> CardData list" where
  "cardsOf [] = []"
| "cardsOf (x # xs) = (case x of None \<Rightarrow> cardsOf xs | Some c \<Rightarrow> c # cardsOf xs)"

text \<open>Sample boards. \<open>plain s r\<close> is the card that \<^verbatim>\<open>generateDeck\<close> builds for a suit
  and a rank when the random tag is empty; \<open>completeRow s\<close> is the run from the two to the
  king of a suit, followed by the gap.\<close>

definition plain :: "Suit \<Rightarrow> Rank \<Rightarrow> CardData" where
  "plain s r = mkCard (\<lambda>x. []) 0 s r"

definition completeRow :: "Suit \<Rightarrow> GridCell list" where
  "completeRow s = map (\<lambda>r. Some (plain s r)) (butlast RANKS) @ [None]"

definition wonGrid :: Grid where
  "wonGrid = map completeRow SUITS"

definition emptyRow :: "GridCell list" where
  "emptyRow = replicate 13 None"

text \<open>A board in its first moves: the two and the three of hearts lead row 0.\<close>

definition openingGrid :: Grid where
  "openingGrid =
     [[Some (plain HEARTS TWO), Some (plain HEARTS THREE), None, Some (plain SPADES KING), None]
        @ replicate 8 None,
      [Some (plain CLUBS FIVE), Some (plain CLUBS SIX)] @ replicate 11 None,
      emptyRow, emptyRow]"

text \<open>The break point of a row, in the words of the lock detector's contract: a row
  whose first cell is not a two has none of its cells locked; otherwise the first cell is
  locked and the walk goes on while the cell is a card of the suit of the first one whose
  rank value is one more than the last one locked. \<open>runLen s v cells\<close> is the number of
  cells the walk locks after a card of value \<open>v\<close>.\<close>

fun runLen :: "Suit \<Rightarrow> int \<Rightarrow> GridCell list \<Rightarrow> nat" where
  "runLen s v [] = 0"
| "runLen s v (cell # cells) =
     (case cell of
        None \<Rightarrow> 0
      | Some c \<Rightarrow> if suit c = s \<and> getRankValue (rank c) = v + 1
                  then Suc (runLen s (v + 1) cells) else 0)"

definition lockedPrefixLen :: "GridCell list \<Rightarrow> nat" where
  "lockedPrefixLen row =
     (case row of
        [] \<Rightarrow> 0
      | None # cells \<Rightarrow> 0
      | Some c0 # cells \<Rightarrow> if rank c0 = TWO then Suc (runLen (suit c0) 2 cells) else 0)"

text \<open>The cards of the locked prefix of a row.\<close>

definition lockedCells :: "GridCell list \<Rightarrow> CardData list" where
  "lockedCells row = cardsOf (take (lockedPrefixLen row) row)"

text \<open>The cards of a grid carry pairwise distinct ids.\<close>

definition distinct_ids :: "Grid \<Rightarrow> bool" where
  "distinct_ids g = distinct (map card_id (cardsOf (concat g)))"

text \<open>A board whose row 0 is the complete run of hearts, while row 1 starts with the two
  of spades and the other rows are empty.\<close>

definition heartsDoneGrid :: Grid where
  "heartsDoneGrid =
     [completeRow HEARTS, [Some (plain SPADES TWO)] @ replicate 12 None, emptyRow, emptyRow]"

text \<open>Notions for the scan of \<^verbatim>\<open>reshuffleBoard\<close>. \<open>blank p n row\<close> is \<open>row\<close> with the
  cells from column \<open>p\<close> up to column \<open>n\<close> (excluded) emptied; \<open>scanned G r cs ps n\<close> is the
  state reached on row \<open>r\<close> when the columns below \<open>n\<close> are done.\<close>

definition blank :: "nat \<Rightarrow> nat \<Rightarrow> GridCell list \<Rightarrow> GridCell list" where
  "blank p n row = map (\<lambda>c. if p \<le> c \<and> c < n then None else row ! c) [0..<length row]"

definition scanned :: "Grid \<Rightarrow> nat \<Rightarrow> CardData list \<Rightarrow> (nat \<times> nat) list \<Rightarrow> nat \<Rightarrow> scan" where
  "scanned G r cs ps n =
     \<lparr> newGrid = G[r := blank (lockedPrefixLen (G ! r)) n (G ! r)],
       cardsToShuffle =
         cs @ cardsOf (take (n - lockedPrefixLen (G ! r)) (drop (lockedPrefixLen (G ! r)) (G ! r))),
       positionsToFill = ps @ map (Pair r) [lockedPrefixLen (G ! r)..<n] \<rparr>"

text \<open>The locked prefix of a row followed by gaps; the cards behind the break point; the
  positions from the break point of each row to its end.\<close>

definition frozenRow :: "GridCell list \<Rightarrow> GridCell list" where
  "frozenRow row = take (lockedPrefixLen row) row @ replicate (length row - lockedPrefixLen row) None"

definition freeCards :: "GridCell list \<Rightarrow> CardData list" where
  "freeCards row = cardsOf (drop (lockedPrefixLen row) row)"

definition freePositions :: "Grid \<Rightarrow> nat \<Rightarrow> (nat \<times> nat) list" where
  "freePositions g m = concat (map (\<lambda>r. map (Pair r) [lockedPrefixLen (g ! r)..<cols]) [0..<m])"


text \<open>A position that lies inside a grid.\<close>

definition inGrid :: "Grid \<Rightarrow> nat \<times> nat \<Rightarrow> bool" where
  "inGrid g = (\<lambda>(r, c). r < length g \<and> c < length (g ! r))"

text \<open>The cell that \<^verbatim>\<open>initializeBoard\<close> deals for a card: an ace becomes a gap.\<close>

definition toCell :: "CardData \<Rightarrow> GridCell" where
  "toCell c = (if rank c = ACE then None else Some c)"

section \<open>The engine on an explicit store\<close>

text \<open>For the frame properties the arrays are objects of a store. A grid is a reference
  to an array of references to row arrays; a row array holds cells. Cards are never
  written, so a cell holds the card itself. \<open>next_ref\<close> is the next reference that an
  allocation returns.\<close>

type_synonym ref = nat

datatype obj = RowArray "GridCell list" | GridArray "ref list"

record store =
  heap :: "ref \<Rightarrow> obj option"
  next_ref :: ref

definition alloc :: "obj \<Rightarrow> store \<Rightarrow> ref \<times> store" where
  "alloc ob s = (next_ref s, \<lparr> heap = (heap s)(next_ref s \<mapsto> ob), next_ref = Suc (next_ref s) \<rparr>)"

text \<open>The elements of a grid array and of a row array.\<close>

definition rowsOf :: "store \<Rightarrow> ref \<Rightarrow> ref list" where
  "rowsOf s g = (case heap s g of Some (GridArray rs) \<Rightarrow> rs | _ \<Rightarrow> [])"

definition cellsOf :: "store \<Rightarrow> ref \<Rightarrow> GridCell list" where
  "cellsOf s a = (case heap s a of Some (RowArray cells) \<Rightarrow> cells | _ \<Rightarrow> [])"

text \<open>The grid value that a reference stands for.\<close>

definition readGrid :: "store \<Rightarrow> ref \<Rightarrow> Grid" where
  "readGrid s g = map (cellsOf s) (rowsOf s g)"

text \<open>\<^verbatim>\<open>grid[r][c] = v\<close> on the store: the row array that \<open>grid[r]\<close> refers to is updated
  in place.\<close>

definition writeCell :: "store \<Rightarrow> ref \<Rightarrow> nat \<Rightarrow> GridCell \<Rightarrow> store" where
  "writeCell s a c v = s \<lparr> heap := (heap s)(a \<mapsto> RowArray (setAt (cellsOf s a) c v)) \<rparr>"

text \<open>The four queries hold no assignment to an array element or to a field of an object
  (they assign to local variables and to a set they create): on the store they read the grid
  and hand the store back.\<close>

definition canPlaceCard_st ::
  "CardData \<Rightarrow> nat \<Rightarrow> nat \<Rightarrow> ref \<Rightarrow> store \<Rightarrow> (error + bool) \<times> store" where
  "canPlaceCard_st crd targetRow targetCol grid s =
     (canPlaceCard crd targetRow targetCol (readGrid s grid), s)"

definition checkWinCondition_st :: "ref \<Rightarrow> store \<Rightarrow> bool \<times> store" where
  "checkWinCondition_st grid s = (checkWinCondition (readGrid s grid), s)"

definition calculateScore_st :: "ref \<Rightarrow> store \<Rightarrow> int \<times> store" where
  "calculateScore_st grid s = (calculateScore (readGrid s grid), s)"

definition getLockedCards_st :: "ref \<Rightarrow> store \<Rightarrow> string set \<times> store" where
  "getLockedCards_st grid s = (getLockedCards (readGrid s grid), s)"

text \<open>\<^verbatim>\<open>currentGrid.map(row => [...row])\<close>: every row is copied into a new row array, and
  the references to the copies form a new grid array.\<close>

fun copyRows :: "ref list \<Rightarrow> store \<Rightarrow> ref list \<times> store" where
  "copyRows [] s = ([], s)"
| "copyRows (a # as) s =
     (let (a', s1) = alloc (RowArray (cellsOf s a)) s;
          (as', s2) = copyRows as s1
      in (a' # as', s2))"

definition copyGrid :: "ref \<Rightarrow> store \<Rightarrow> ref \<times> store" where
  "copyGrid g s = (let (rs', s1) = copyRows (rowsOf s g) s in alloc (GridArray rs') s1)"

text \<open>The state of step 1 on the store; \<open>newGridRef\<close> is the reference that the
  variable \<^verbatim>\<open>newGrid\<close> holds. \<^verbatim>\<open>cardsToShuffle\<close>, \<^verbatim>\<open>positionsToFill\<close> and
  \<^verbatim>\<open>fillItems\<close> are arrays that the function creates and never hands out; they stay
  values.\<close>

record scan_st =
  st_store :: store
  st_cards :: "CardData list"
  st_positions :: "(nat \<times> nat) list"

definition collect_st :: "ref \<Rightarrow> nat \<Rightarrow> nat \<Rightarrow> scan_st \<Rightarrow> scan_st" where
  "collect_st newGridRef r c st =
     (let row = rowsOf (st_store st) newGridRef ! r;
          cell = cellAt (cellsOf (st_store st) row) c
      in \<lparr> st_store = writeCell (st_store st) row c None,
           st_cards = (case cell of None \<Rightarrow> st_cards st | Some crd \<Rightarrow> st_cards st @ [crd]),
           st_positions = st_positions st @ [(r, c)] \<rparr>)"

definition scanCell_st :: "ref \<Rightarrow> nat \<Rightarrow> nat \<Rightarrow> bool \<times> scan_st \<Rightarrow> bool \<times> scan_st" where
  "scanCell_st newGridRef r c = (\<lambda>(isSequence, st).
     if isSequence then
       (if c = 0 then
          (if \<not> isSequence then (isSequence, collect_st newGridRef r c st) else (isSequence, st))
        else
          (let row = rowsOf (st_store st) newGridRef ! r;
               prev = cellAt (cellsOf (st_store st) row) (c - 1);
               curr = cellAt (cellsOf (st_store st) row) c
           in case (curr, prev) of
                (Some cu, Some pr) \<Rightarrow>
                  if suit cu = suit pr \<and> getRankValue (rank cu) = getRankValue (rank pr) + 1
                  then (isSequence, st)
                  else (False, collect_st newGridRef r c st)
              | _ \<Rightarrow> (False, collect_st newGridRef r c st)))
     else (isSequence, collect_st newGridRef r c st))"

definition scanRow_st :: "ref \<Rightarrow> nat \<Rightarrow> scan_st \<Rightarrow> error + scan_st" where
  "scanRow_st newGridRef r st =
     (if \<not> r < length (rowsOf (st_store st) newGridRef) then Inl TypeError
      else (let row = rowsOf (st_store st) newGridRef ! r;
                isSequence = (case cellAt (cellsOf (st_store st) row) 0 of
                                None \<Rightarrow> False
                              | Some c0 \<Rightarrow> rank c0 = TWO)
            in Inr (snd (fold (scanCell_st newGridRef r) [0..<cols] (isSequence, st)))))"

text \<open>A TypeError leaves the store as the rows scanned so far have made it.\<close>

fun scanRows_st :: "ref \<Rightarrow> nat list \<Rightarrow> scan_st \<Rightarrow> (error + scan_st) \<times> store" where
  "scanRows_st newGridRef [] st = (Inr st, st_store st)"
| "scanRows_st newGridRef (r # rs) st =
     (case scanRow_st newGridRef r st of
        Inl e \<Rightarrow> (Inl e, st_store st)
      | Inr st' \<Rightarrow> scanRows_st newGridRef rs st')"

fun assignBack_st :: "ref \<Rightarrow> (nat \<times> nat) list \<Rightarrow> nat \<Rightarrow> GridCell list \<Rightarrow> store \<Rightarrow> store" where
  "assignBack_st newGridRef [] idx fillItems s = s"
| "assignBack_st newGridRef ((r, c) # ps) idx fillItems s =
     assignBack_st newGridRef ps (idx + 1) fillItems
       (writeCell s (rowsOf s newGridRef ! r) c (cellAt fillItems idx))"

definition reshuffleBoard_st :: "(nat \<Rightarrow> real) \<Rightarrow> ref \<Rightarrow> store \<Rightarrow> (error + ref) \<times> store" where
  "reshuffleBoard_st rnd currentGrid s =
     (let (newGridRef, s1) = copyGrid currentGrid s
      in case scanRows_st newGridRef [0..<rows]
                \<lparr> st_store = s1, st_cards = [], st_positions = [] \<rparr> of
           (Inl e, s2) \<Rightarrow> (Inl e, s2)
         | (Inr st, s2) \<Rightarrow>
             (let (shuffled, k) = fisherYates rnd (length (st_cards st) - 1) 0 (st_cards st);
                  fillItems0 = padItems (map Some shuffled) (length (st_positions st));
                  (fillItems, k') = fisherYates rnd (length fillItems0 - 1) k fillItems0
              in (Inr newGridRef,
                  assignBack_st newGridRef (st_positions st) 0 fillItems (st_store st))))"

text \<open>A store in which \<open>g\<close> refers to a grid array whose elements refer to row arrays, and
  in which every object lies below \<open>next_ref\<close>.\<close>

definition wf_grid :: "store \<Rightarrow> ref \<Rightarrow> bool" where
  "wf_grid s g =
     ((\<exists>rs. heap s g = Some (GridArray rs)
          \<and> (\<forall>a \<in> set rs. \<exists>cells. heap s a = Some (RowArray cells)))
      \<and> (\<forall>a. next_ref s \<le> a \<longrightarrow> heap s a = None))"

text \<open>A store that holds \<open>openingGrid\<close> at reference 4, with its rows at 0 to 3.\<close>

definition openingStore :: store where
  "openingStore =
     \<lparr> heap = (\<lambda>a. if a < 4 then Some (RowArray (openingGrid ! a))
                   else if a = 4 then Some (GridArray [0, 1, 2, 3]) else None),
       next_ref = 5 \<rparr>"

text \<open>Notions for the proofs about the store. \<open>tracks s0 g rs s\<close>: the store \<open>s\<close> differs
  from \<open>s0\<close> only in the row arrays \<open>rs\<close> of the grid array \<open>g\<close>. \<open>absScan g st\<close> is the state
  of the scan on grid values that a state on the store stands for.\<close>

definition tracks :: "store \<Rightarrow> ref \<Rightarrow> ref list \<Rightarrow> store \<Rightarrow> bool" where
  "tracks s0 g rs s =
     (heap s0 g = Some (GridArray rs) \<and> distinct rs \<and> g \<notin> set rs
      \<and> (\<forall>a \<in> set rs. \<exists>cells. heap s a = Some (RowArray cells))
      \<and> (\<forall>b. b \<notin> set rs \<longrightarrow> heap s b = heap s0 b)
      \<and> next_ref s = next_ref s0)"

definition absScan :: "ref \<Rightarrow> scan_st \<Rightarrow> scan" where
  "absScan g st =
     \<lparr> newGrid = readGrid (st_store st) g, cardsToShuffle = st_cards st,
       positionsToFill = st_positions st \<rparr>"

text \<open>The list \<^verbatim>\<open>fillItems\<close> of steps 2 and 3, from the collected cards and the number of
  collected positions.\<close>

definition fillItemsOf :: "(nat \<Rightarrow> real) \<Rightarrow> CardData list \<Rightarrow> nat \<Rightarrow> GridCell list" where
  "fillItemsOf rnd cards n =
     (let (shuffled, k) = fisherYates rnd (length cards - 1) 0 cards;
          fillItems0 = padItems (map Some shuffled) n;
          (fillItems, k') = fisherYates rnd (length fillItems0 - 1) k fillItems0
      in fillItems)"

section \<open>Rank values and structural validity\<close>

lemma getRankValue_simps [simp]:
  "getRankValue TWO = 2" "getRankValue THREE = 3" "getRankValue FOUR = 4"
  "getRankValue FIVE = 5" "getRankValue SIX = 6" "getRankValue SEVEN = 7"
  "getRankValue EIGHT = 8" "getRankValue NINE = 9" "getRankValue TEN = 10"
  "getRankValue JACK = 11" "getRankValue QUEEN = 12" "getRankValue KING = 13"
  "getRankValue ACE = 14"
  by (simp_all add: getRankValue_def RANKS_def)

lemma valid_grid_length: "valid_grid g \<Longrightarrow> length g = 4"
  by (simp add: valid_grid_def rows_def)

lemma valid_grid_row: "valid_grid g \<Longrightarrow> r < 4 \<Longrightarrow> length (g ! r) = 13"
  by (simp add: valid_grid_def rows_def cols_def)

lemma valid_wonGrid: "valid_grid wonGrid"
  by (simp add: valid_grid_def wonGrid_def completeRow_def SUITS_def RANKS_def rows_def cols_def)

lemma valid_openingGrid: "valid_grid openingGrid"
  by (simp add: valid_grid_def openingGrid_def emptyRow_def rows_def cols_def)

section \<open>Move legality\<close>

lemma canPlaceCard_col0: "canPlaceCard crd row 0 grid = Inr (rank crd = TWO)"
  by (simp add: canPlaceCard_def)

lemma canPlaceCard_adjacent:
  assumes "valid_grid grid" "row < 4" "1 \<le> col" "col \<le> 12"
  shows "canPlaceCard crd row col grid =
     Inr (\<exists>n. grid ! row ! (col - 1) = Some n \<and> rank n \<noteq> KING \<and> suit n = suit crd
            \<and> getRankValue (rank n) = getRankValue (rank crd) - 1)"
proof -
  have len: "length grid = 4" "length (grid ! row) = 13"
    using assms by (simp_all add: valid_grid_length valid_grid_row)
  show ?thesis
    using assms(2-4) len
    by (cases "grid ! row ! (col - 1)") (auto simp: canPlaceCard_def cellAt_def)
qed

text \<open>C3. Column 0 accepts a card exactly when it is a two, whatever the grid and the
  row; in a structurally valid grid, a column from 1 to 12 of a row accepts a card exactly
  when the left neighbour is a card, not a king, of the same suit and of rank value one
  less.\<close>

theorem canPlaceCard_law:
  "canPlaceCard crd row 0 grid = Inr (rank crd = TWO) \<and>
   (valid_grid grid \<and> row < 4 \<and> 1 \<le> col \<and> col \<le> 12 \<longrightarrow>
      canPlaceCard crd row col grid =
        Inr (\<exists>n. grid ! row ! (col - 1) = Some n \<and> rank n \<noteq> KING \<and> suit n = suit crd
               \<and> getRankValue (rank n) = getRankValue (rank crd) - 1))"
  using canPlaceCard_col0 canPlaceCard_adjacent by blast

theorem canPlaceCard_law_witness:
  "valid_grid openingGrid \<and>
   canPlaceCard (plain HEARTS FOUR) 0 0 openingGrid = Inr False \<and>
   canPlaceCard (plain HEARTS FOUR) 0 2 openingGrid = Inr True \<and>
   canPlaceCard (plain SPADES ACE) 0 4 openingGrid = Inr False"
  using canPlaceCard_law [of "plain HEARTS FOUR" 0 openingGrid 2]
    canPlaceCard_law [of "plain SPADES ACE" 0 openingGrid 4] valid_openingGrid
  by (simp add: openingGrid_def plain_def mkCard_def)

section \<open>Win detection\<close>

declare isRowComplete_loop.simps [simp del]

lemma all_from_step:
  "i < n \<Longrightarrow>
   (\<forall>j. i \<le> j \<and> j < n \<longrightarrow> P j) = (P i \<and> (\<forall>j. Suc i \<le> j \<and> j < n \<longrightarrow> P j))"
  by (metis Suc_leI le_neq_implies_less not_less_eq_eq order_refl le_SucI Suc_le_lessD less_imp_le)

lemma isRowComplete_loop_unfold:
  "isRowComplete_loop s row i =
     (if i < 12 then
        (case cellAt row i of None \<Rightarrow> False
         | Some cell \<Rightarrow> suit cell = s \<and> getRankValue (rank cell) = int i + 2
              \<and> isRowComplete_loop s row (Suc i))
      else True)"
  by (subst isRowComplete_loop.simps) (auto split: option.splits)

lemma isRowComplete_loop_iff:
  "isRowComplete_loop s row i =
     (\<forall>j. i \<le> j \<and> j < 12 \<longrightarrow>
        (\<exists>c. cellAt row j = Some c \<and> suit c = s \<and> getRankValue (rank c) = int j + 2))"
proof (induction s row i rule: isRowComplete_loop.induct)
  case (1 s row i)
  show ?case
  proof (cases "i < 12")
    case False
    then have none: "\<And>j. \<not> (i \<le> j \<and> j < 12)" by arith
    have "isRowComplete_loop s row i" using False by (subst isRowComplete_loop_unfold) simp
    then show ?thesis using none by blast
  next
    case True
    note step = all_from_step[OF True, of "\<lambda>j. \<exists>c. cellAt row j = Some c \<and> suit c = s \<and> getRankValue (rank c) = int j + 2"]
    show ?thesis
    proof (cases "cellAt row i")
      case None
      then show ?thesis using True
        by (subst isRowComplete_loop_unfold, subst step) simp
    next
      case (Some cell)
      show ?thesis
      proof (cases "suit cell = s \<and> getRankValue (rank cell) = int i + 2")
        case False
        with True Some show ?thesis
          by (subst isRowComplete_loop_unfold, subst step) auto
      next
        case ok: True
        from "1.IH"[OF True Some] ok
        have IH: "isRowComplete_loop s row (i + 1) = (\<forall>j. i + 1 \<le> j \<and> j < 12 \<longrightarrow>
          (\<exists>c. cellAt row j = Some c \<and> suit c = s \<and> getRankValue (rank c) = int j + 2))"
          by simp
        show ?thesis
          using True Some ok IH
          by (subst isRowComplete_loop_unfold, subst step) simp
      qed
    qed
  qed
qed

lemma isRowComplete_iff:
  "length row = 13 \<Longrightarrow> isRowComplete row =
     (row ! 12 = None \<and>
      (\<exists>c0. row ! 0 = Some c0 \<and> rank c0 = TWO \<and>
         (\<forall>i<12. \<exists>c. row ! i = Some c \<and> suit c = suit c0 \<and> getRankValue (rank c) = int i + 2)))"
  by (cases "row ! 0") (auto simp: isRowComplete_def isRowComplete_loop_iff cellAt_def)

lemma checkWinCondition_iff: "checkWinCondition g = (\<forall>row \<in> set g. isRowComplete row)"
  by (induction g) auto

lemma checkWinCondition_rows:
  assumes "valid_grid g"
  shows "checkWinCondition g = (\<forall>r<4. isRowComplete (g ! r))"
  using valid_grid_length[OF assms]
  by (auto simp: checkWinCondition_iff all_set_conv_all_nth)

lemma wonGrid_wins: "checkWinCondition wonGrid"
  by (simp add: wonGrid_def completeRow_def SUITS_def RANKS_def isRowComplete_def
      isRowComplete_loop_unfold cellAt_def plain_def mkCard_def)

lemma openingGrid_not_won: "\<not> checkWinCondition openingGrid"
  by code_simp

text \<open>C5. On a structurally valid grid the win test holds exactly when each of the four
  rows has a gap in column 12, a two in column 0, and in every column \<open>i\<close> from 0 to 11 a
  card of the suit of the row's first card with rank value \<open>i + 2\<close>. In particular a gap
  before column 12, or a card in column 12, makes the test fail.\<close>

theorem checkWinCondition_exact:
  assumes "valid_grid g"
  shows "checkWinCondition g =
           (\<forall>r<4. g ! r ! 12 = None \<and>
              (\<exists>c0. g ! r ! 0 = Some c0 \<and> rank c0 = TWO \<and>
                 (\<forall>i<12. \<exists>c. g ! r ! i = Some c \<and> suit c = suit c0
                    \<and> getRankValue (rank c) = int i + 2)))
         \<and> ((\<exists>r<4. (\<exists>i<12. g ! r ! i = None) \<or> g ! r ! 12 \<noteq> None)
               \<longrightarrow> \<not> checkWinCondition g)"
proof -
  have eq: "checkWinCondition g =
           (\<forall>r<4. g ! r ! 12 = None \<and>
              (\<exists>c0. g ! r ! 0 = Some c0 \<and> rank c0 = TWO \<and>
                 (\<forall>i<12. \<exists>c. g ! r ! i = Some c \<and> suit c = suit c0
                    \<and> getRankValue (rank c) = int i + 2)))"
    using valid_grid_row[OF assms]
    by (simp add: checkWinCondition_rows[OF assms] isRowComplete_iff)
  have "\<not> checkWinCondition g"
    if "\<exists>r<4. (\<exists>i<12. g ! r ! i = None) \<or> g ! r ! 12 \<noteq> None"
    using that unfolding eq by fastforce
  with eq show ?thesis by blast
qed

theorem checkWinCondition_exact_witness:
  "valid_grid wonGrid \<and> checkWinCondition wonGrid \<and>
   valid_grid openingGrid \<and> \<not> checkWinCondition openingGrid
   \<and> (\<exists>r<4. \<exists>i<12. openingGrid ! r ! i = None)"
proof -
  have "\<exists>r<4. \<exists>i<12. openingGrid ! r ! i = None"
    by (rule exI[of _ 0], simp, rule exI[of _ 2]) (simp add: openingGrid_def)
  then show ?thesis
    using checkWinCondition_exact [OF valid_wonGrid] checkWinCondition_exact [OF valid_openingGrid]
      valid_wonGrid valid_openingGrid wonGrid_wins
    by blast
qed

section \<open>The locked prefix of a row\<close>

lemma cardsOf_append [simp]: "cardsOf (xs @ ys) = cardsOf xs @ cardsOf ys"
  by (induction xs) (auto split: option.splits)

lemma cardsOf_concat: "cardsOf (concat g) = concat (map cardsOf g)"
  by (induction g) auto

lemma cardsOf_replicate_None [simp]: "cardsOf (replicate n None) = []"
  by (induction n) auto

lemma cardsOf_map_Some [simp]: "cardsOf (map Some cs) = cs"
  by (induction cs) auto


lemma runLen_le: "runLen s v cells \<le> length cells"
  by (induction cells arbitrary: v) (auto split: option.splits)

lemma runLen_nth:
  "i < runLen s v cells \<Longrightarrow>
   \<exists>c. cells ! i = Some c \<and> suit c = s \<and> getRankValue (rank c) = v + 1 + int i"
proof (induction cells arbitrary: v i)
  case Nil
  then show ?case by simp
next
  case (Cons cell cells)
  show ?case
  proof (cases i)
    case 0
    with Cons.prems show ?thesis by (auto split: option.splits if_splits)
  next
    case (Suc j)
    with Cons.prems have "j < runLen s (v + 1) cells"
      by (auto split: option.splits if_splits)
    from Cons.IH[OF this] Suc show ?thesis by (auto simp: algebra_simps)
  qed
qed

lemma runLen_break:
  "runLen s v cells < length cells \<Longrightarrow>
   \<not> (\<exists>c. cells ! runLen s v cells = Some c \<and> suit c = s
          \<and> getRankValue (rank c) = v + 1 + int (runLen s v cells))"
proof (induction cells arbitrary: v)
  case Nil
  then show ?case by simp
next
  case (Cons cell cells)
  show ?case
  proof (cases "runLen s v (cell # cells)")
    case 0
    then show ?thesis by (auto split: option.splits if_splits)
  next
    case (Suc n)
    then have n: "n = runLen s (v + 1) cells"
      by (auto split: option.splits if_splits)
    with Cons.prems Suc have "runLen s (v + 1) cells < length cells" by simp
    from Cons.IH[OF this] Suc n show ?thesis by (auto simp: algebra_simps)
  qed
qed

lemma lockedPrefixLen_le: "lockedPrefixLen row \<le> length row"
  using runLen_le by (auto simp: lockedPrefixLen_def split: list.splits option.splits)

lemma lockedPrefixLen_pos:
  "(0 < lockedPrefixLen row) = (\<exists>c0. cellAt row 0 = Some c0 \<and> rank c0 = TWO)"
  by (auto simp: lockedPrefixLen_def cellAt_def split: list.splits option.splits)

lemma lockedPrefixLen_nth:
  assumes "i < lockedPrefixLen row"
  shows "\<exists>c0 c. row ! 0 = Some c0 \<and> rank c0 = TWO \<and> row ! i = Some c \<and> suit c = suit c0
           \<and> getRankValue (rank c) = int i + 2"
proof (cases row)
  case Nil
  with assms show ?thesis by (simp add: lockedPrefixLen_def)
next
  case (Cons x cells)
  with assms obtain c0 where c0: "x = Some c0" "rank c0 = TWO"
    and i: "i < Suc (runLen (suit c0) 2 cells)"
    by (auto simp: lockedPrefixLen_def split: option.splits if_splits)
  show ?thesis
  proof (cases i)
    case 0
    with Cons c0 show ?thesis by simp
  next
    case (Suc j)
    with i have "j < runLen (suit c0) 2 cells" by simp
    from runLen_nth[OF this] Suc Cons c0 show ?thesis by auto
  qed
qed

lemma lockedPrefixLen_break:
  assumes "0 < lockedPrefixLen row" "lockedPrefixLen row < length row"
  shows "\<not> (\<exists>c0 c. row ! 0 = Some c0 \<and> row ! lockedPrefixLen row = Some c \<and> suit c = suit c0
           \<and> getRankValue (rank c) = int (lockedPrefixLen row) + 2)"
proof (cases row)
  case Nil
  with assms show ?thesis by simp
next
  case (Cons x cells)
  with assms(1) obtain c0 where c0: "x = Some c0" "rank c0 = TWO"
    and p: "lockedPrefixLen row = Suc (runLen (suit c0) 2 cells)"
    by (auto simp: lockedPrefixLen_def split: option.splits if_splits)
  from assms(2) p Cons have "runLen (suit c0) 2 cells < length cells" by simp
  from runLen_break[OF this] p Cons c0 show ?thesis by auto
qed

lemma take_locked_all_cards:
  "take (lockedPrefixLen row) row = map Some (lockedCells row)"
proof -
  have "\<forall>x \<in> set (take (lockedPrefixLen row) row). x \<noteq> None"
  proof
    fix x assume "x \<in> set (take (lockedPrefixLen row) row)"
    then obtain i where "i < lockedPrefixLen row" "i < length row" "x = row ! i"
      by (auto simp: in_set_conv_nth)
    with lockedPrefixLen_nth[of i row] show "x \<noteq> None" by auto
  qed
  moreover have "\<And>xs. \<forall>x \<in> set xs. x \<noteq> None \<Longrightarrow> xs = map Some (cardsOf xs)"
    subgoal for xs by (induction xs) (auto split: option.splits)
    done
  ultimately show ?thesis unfolding lockedCells_def by blast
qed

lemma calculateScore_run_eq:
  "calculateScore_run s v cells score =
     score + sum_list (map (\<lambda>c. getRankValue (rank c)) (cardsOf (take (runLen s v cells) cells)))"
  by (induction cells arbitrary: v score) (auto split: option.splits simp: Let_def)

lemma getLockedCards_run_eq:
  "getLockedCards_run s v cells locked =
     locked \<union> card_id ` set (cardsOf (take (runLen s v cells) cells))"
  by (induction cells arbitrary: v locked) (auto split: option.splits simp: Let_def)

lemma calculateScore_rows_eq:
  "calculateScore_rows g score =
     score + sum_list (map (\<lambda>row. sum_list (map (\<lambda>c. getRankValue (rank c)) (lockedCells row))) g)"
proof (induction g arbitrary: score)
  case Nil
  then show ?case by simp
next
  case (Cons row g)
  show ?case
    by (cases row)
      (auto simp: Cons.IH cellAt_def lockedCells_def lockedPrefixLen_def calculateScore_run_eq
        split: option.splits)
qed

lemma getLockedCards_rows_eq:
  "getLockedCards_rows g locked = locked \<union> (\<Union>row \<in> set g. card_id ` set (lockedCells row))"
proof (induction g arbitrary: locked)
  case Nil
  then show ?case by simp
next
  case (Cons row g)
  show ?case
    by (cases row)
      (auto simp: Cons.IH cellAt_def lockedCells_def lockedPrefixLen_def getLockedCards_run_eq
        split: option.splits)
qed

lemma calculateScore_eq:
  "calculateScore g =
     sum_list (map (\<lambda>row. sum_list (map (\<lambda>c. getRankValue (rank c)) (lockedCells row))) g)"
  by (simp add: calculateScore_def calculateScore_rows_eq)

lemma getLockedCards_eq:
  "getLockedCards g = (\<Union>row \<in> set g. card_id ` set (lockedCells row))"
  by (simp add: getLockedCards_def getLockedCards_rows_eq)

section \<open>Lock detection and scoring agree\<close>

lemma distinct_concat_nth_less:
  "distinct (concat xss) \<Longrightarrow> a < b \<Longrightarrow> b < length xss \<Longrightarrow> set (xss ! a) \<inter> set (xss ! b) = {}"
proof (induction xss arbitrary: a b)
  case Nil
  then show ?case by simp
next
  case (Cons xs xss)
  from Cons.prems obtain b' where b: "b = Suc b'" by (cases b) auto
  show ?case
  proof (cases a)
    case 0
    have "xss ! b' \<in> set xss" using Cons.prems b by simp
    then have "set (xss ! b') \<subseteq> set (concat xss)" by auto
    with Cons.prems(1) 0 b show ?thesis by auto
  next
    case (Suc a')
    with Cons.prems b Cons.IH[of a' b'] show ?thesis by simp
  qed
qed

lemma distinct_concat_nth_disjoint:
  assumes "distinct (concat xss)" "a < length xss" "b < length xss" "a \<noteq> b"
  shows "set (xss ! a) \<inter> set (xss ! b) = {}"
proof (cases "a < b")
  case True
  with assms distinct_concat_nth_less show ?thesis by blast
next
  case False
  with assms have "b < a" by simp
  from distinct_concat_nth_less[OF assms(1) this assms(2)] show ?thesis by blast
qed

lemma distinct_concat_nth:
  "distinct (concat xss) \<Longrightarrow> a < length xss \<Longrightarrow> distinct (xss ! a)"
  by (induction xss arbitrary: a) (auto simp: nth_Cons split: nat.splits)

lemma ids_concat:
  "map card_id (cardsOf (concat g)) = concat (map (\<lambda>row. map card_id (cardsOf row)) g)"
  by (induction g) auto

lemma ids_rows_disjoint:
  assumes "distinct_ids g" "a < length g" "b < length g" "a \<noteq> b"
  shows "card_id ` set (cardsOf (g ! a)) \<inter> card_id ` set (cardsOf (g ! b)) = {}"
  using distinct_concat_nth_disjoint[of "map (\<lambda>row. map card_id (cardsOf row)) g" a b] assms
  by (simp add: distinct_ids_def ids_concat)

lemma ids_row_distinct:
  assumes "distinct_ids g" "a < length g"
  shows "distinct (map card_id (cardsOf (g ! a)))"
  using distinct_concat_nth[of "map (\<lambda>row. map card_id (cardsOf row)) g" a] assms
  by (simp add: distinct_ids_def ids_concat)

lemma cardsOf_split:
  "cardsOf row = lockedCells row @ cardsOf (drop (lockedPrefixLen row) row)"
  unfolding lockedCells_def by (simp flip: cardsOf_append)

lemma lockedCells_subset: "set (lockedCells row) \<subseteq> set (cardsOf row)"
  by (subst cardsOf_split) simp

text \<open>With distinct ids, a card outside the locked prefix of its row has an id that no
  locked card has.\<close>

lemma free_card_not_locked:
  assumes "distinct_ids g" "a < length g"
    and c: "c \<in> set (cardsOf (drop (lockedPrefixLen (g ! a)) (g ! a)))"
  shows "card_id c \<notin> getLockedCards g"
proof
  assume "card_id c \<in> getLockedCards g"
  then obtain row' c' where row': "row' \<in> set g" and c': "c' \<in> set (lockedCells row')"
    and same: "card_id c' = card_id c"
    by (auto simp: getLockedCards_eq)
  from row' obtain b where b: "b < length g" "row' = g ! b"
    by (auto simp: in_set_conv_nth)
  show False
  proof (cases "b = a")
    case True
    have "distinct (map card_id (lockedCells (g ! a) @ cardsOf (drop (lockedPrefixLen (g ! a)) (g ! a))))"
      using ids_row_distinct[OF assms(1,2)] by (simp flip: cardsOf_split)
    then have "card_id ` set (lockedCells (g ! a))
        \<inter> card_id ` set (cardsOf (drop (lockedPrefixLen (g ! a)) (g ! a))) = {}"
      by simp
    with c c' same True b show False by (metis IntI emptyE imageI)
  next
    case False
    from c have "c \<in> set (cardsOf (g ! a))" by (subst cardsOf_split) simp
    moreover from c' b have "c' \<in> set (cardsOf (g ! b))" using lockedCells_subset by blast
    ultimately show False
      using ids_rows_disjoint[OF assms(1,2) b(1)] False same by (metis IntI emptyE imageI)
  qed
qed

lemma locked_filter_row:
  assumes "distinct_ids g" "a < length g"
  shows "filter (\<lambda>c. card_id c \<in> getLockedCards g) (cardsOf (g ! a)) = lockedCells (g ! a)"
proof -
  have "\<forall>c \<in> set (lockedCells (g ! a)). card_id c \<in> getLockedCards g"
    using assms(2) by (auto simp: getLockedCards_eq)
  moreover have "\<forall>c \<in> set (cardsOf (drop (lockedPrefixLen (g ! a)) (g ! a))).
      card_id c \<notin> getLockedCards g"
    using free_card_not_locked[OF assms] by blast
  ultimately show ?thesis
    by (subst cardsOf_split) simp
qed

lemma sum_filter_rows:
  "sum_list (map f (filter P (cardsOf (concat g)))) =
     sum_list (map (\<lambda>row. sum_list (map f (filter P (cardsOf row)))) g)"
  by (induction g) auto

lemma calculateScore_locked_sum:
  assumes "distinct_ids g"
  shows "calculateScore g =
     sum_list (map (\<lambda>c. getRankValue (rank c))
       (filter (\<lambda>c. card_id c \<in> getLockedCards g) (cardsOf (concat g))))"
proof -
  have "\<forall>row \<in> set g.
      filter (\<lambda>c. card_id c \<in> getLockedCards g) (cardsOf row) = lockedCells row"
    using locked_filter_row[OF assms] by (auto simp: in_set_conv_nth)
  then show ?thesis
    by (simp add: calculateScore_eq sum_filter_rows cong: map_cong)
qed

lemma row_cut_point:
  "lockedPrefixLen row \<le> length row \<and> (\<forall>i<lockedPrefixLen row. row ! i \<noteq> None) \<and>
   calculateScore [row] =
     sum_list (map (\<lambda>c. getRankValue (rank c)) (cardsOf (take (lockedPrefixLen row) row))) \<and>
   getLockedCards [row] = card_id ` set (cardsOf (take (lockedPrefixLen row) row))"
  using lockedPrefixLen_nth[of _ row]
  by (auto simp: lockedPrefixLen_le calculateScore_eq getLockedCards_eq lockedCells_def)

lemma openingGrid_distinct: "distinct_ids openingGrid"
  by code_simp

lemma openingGrid_score: "calculateScore openingGrid = 5"
  by code_simp

lemma openingGrid_locked:
  "getLockedCards openingGrid = {card_id (plain HEARTS TWO), card_id (plain HEARTS THREE)}"
  by code_simp

text \<open>C4. When the cards of a grid carry pairwise distinct ids, the score is the sum of the
  rank values of the cards whose id the lock detector returns. Moreover the two scans cut
  every row at the same point: there is a \<open>k\<close> such that the first \<open>k\<close> cells of the row are
  cards, the row's score is the sum of their rank values, and the row's locked ids are
  their ids.\<close>

theorem lock_score_agreement:
  assumes "distinct_ids g"
  shows "calculateScore g =
           sum_list (map (\<lambda>c. getRankValue (rank c))
             (filter (\<lambda>c. card_id c \<in> getLockedCards g) (cardsOf (concat g))))
       \<and> (\<forall>row \<in> set g. \<exists>k\<le>length row. (\<forall>i<k. row ! i \<noteq> None) \<and>
             calculateScore [row] =
               sum_list (map (\<lambda>c. getRankValue (rank c)) (cardsOf (take k row))) \<and>
             getLockedCards [row] = card_id ` set (cardsOf (take k row)))"
  using calculateScore_locked_sum[OF assms] row_cut_point by blast

theorem lock_score_agreement_witness:
  "distinct_ids openingGrid \<and> calculateScore openingGrid = 5 \<and>
   getLockedCards openingGrid = {card_id (plain HEARTS TWO), card_id (plain HEARTS THREE)} \<and>
   sum_list (map (\<lambda>c. getRankValue (rank c))
     (filter (\<lambda>c. card_id c \<in> getLockedCards openingGrid) (cardsOf (concat openingGrid)))) = 5"
  using lock_score_agreement [OF openingGrid_distinct] openingGrid_distinct openingGrid_score
    openingGrid_locked
  by simp

section \<open>A complete row among other rows\<close>

lemma calculateScore_append:
  "calculateScore (xs @ ys) = calculateScore xs + calculateScore ys"
  by (simp add: calculateScore_eq)

lemma getLockedCards_append:
  "getLockedCards (xs @ ys) = getLockedCards xs \<union> getLockedCards ys"
  by (simp add: getLockedCards_eq)

lemma calculateScore_Cons:
  "calculateScore (row # g) = calculateScore [row] + calculateScore g"
  by (simp add: calculateScore_eq)

lemma getLockedCards_Cons:
  "getLockedCards (row # g) = getLockedCards [row] \<union> getLockedCards g"
  by (simp add: getLockedCards_eq)

lemma hearts_run_cards:
  assumes "map (\<lambda>c. (suit c, rank c)) cs = map (Pair HEARTS) (butlast RANKS)"
  shows "lockedCells (map Some cs @ [None]) = cs"
    and "sum_list (map (\<lambda>c. getRankValue (rank c)) cs) = 90"
    and "length cs = 12"
  using assms
  by (auto simp: RANKS_def map_eq_Cons_conv lockedCells_def lockedPrefixLen_def)

lemma no_two_no_lock:
  assumes "\<not> (\<exists>c0. cellAt row 0 = Some c0 \<and> rank c0 = TWO)"
  shows "lockedCells row = []"
proof -
  have "lockedPrefixLen row = 0"
    using assms lockedPrefixLen_pos[of row] by auto
  then show ?thesis by (simp add: lockedCells_def)
qed

lemma heartsDoneGrid_shape:
  "valid_grid heartsDoneGrid \<and> \<not> isRowComplete (heartsDoneGrid ! 1) \<and>
   \<not> isRowComplete (heartsDoneGrid ! 2) \<and> \<not> isRowComplete (heartsDoneGrid ! 3)"
  by code_simp

lemma heartsDoneGrid_row0:
  "heartsDoneGrid ! 0 = map Some (map (plain HEARTS) (butlast RANKS)) @ [None]"
  by (simp add: heartsDoneGrid_def completeRow_def)

lemma heartsDoneGrid_hearts:
  "map (\<lambda>c. (suit c, rank c)) (map (plain HEARTS) (butlast RANKS)) = map (Pair HEARTS) (butlast RANKS)"
  by (simp add: plain_def mkCard_def)

lemma heartsDoneGrid_locked:
  "card_id (plain SPADES TWO) \<in> getLockedCards heartsDoneGrid \<and>
   card_id (plain SPADES TWO) \<notin> card_id ` set (cardsOf (heartsDoneGrid ! 0))"
  by code_simp

lemma heartsDoneGrid_score: "calculateScore heartsDoneGrid = 92"
  by code_simp

text \<open>C8, as the code has it. When row \<open>k\<close> of a grid is the run of the twelve hearts from
  the two to the king followed by a gap, the score is 90 plus the score of the other rows,
  and the locked set is the twelve ids of that row together with the ids locked in the
  other rows; it is exactly the twelve ids when no other row starts with a two.\<close>

theorem complete_hearts_row:
  assumes "k < length g"
    and "g ! k = map Some cs @ [None]"
    and "map (\<lambda>c. (suit c, rank c)) cs = map (Pair HEARTS) (butlast RANKS)"
  shows "length cs = 12
       \<and> calculateScore g = 90 + calculateScore (take k g @ drop (Suc k) g)
       \<and> getLockedCards g = card_id ` set cs \<union> getLockedCards (take k g @ drop (Suc k) g)
       \<and> ((\<forall>row \<in> set (take k g @ drop (Suc k) g).
              \<not> (\<exists>c0. cellAt row 0 = Some c0 \<and> rank c0 = TWO))
            \<longrightarrow> getLockedCards g = card_id ` set cs)"
proof -
  note run = hearts_run_cards[OF assms(3)]
  have g: "g = take k g @ (map Some cs @ [None]) # drop (Suc k) g"
    using id_take_nth_drop[OF assms(1)] assms(2) by simp
  have row_score: "calculateScore [map Some cs @ [None]] = 90"
    by (simp add: calculateScore_eq run)
  have row_locked: "getLockedCards [map Some cs @ [None]] = card_id ` set cs"
    by (simp add: getLockedCards_eq run)
  have score: "calculateScore g = 90 + calculateScore (take k g @ drop (Suc k) g)"
    by (subst g, subst calculateScore_append, subst calculateScore_Cons)
      (simp add: calculateScore_append row_score)
  have locked: "getLockedCards g
      = card_id ` set cs \<union> getLockedCards (take k g @ drop (Suc k) g)"
    by (subst g, subst getLockedCards_append, subst getLockedCards_Cons)
      (auto simp: getLockedCards_append row_locked)
  have "getLockedCards (take k g @ drop (Suc k) g) = {}"
    if "\<forall>row \<in> set (take k g @ drop (Suc k) g).
          \<not> (\<exists>c0. cellAt row 0 = Some c0 \<and> rank c0 = TWO)"
    using that no_two_no_lock by (simp add: getLockedCards_eq)
  with score locked run(3) show ?thesis by simp
qed

theorem complete_hearts_row_witness:
  "heartsDoneGrid ! 0 = map Some (map (plain HEARTS) (butlast RANKS)) @ [None] \<and>
   calculateScore heartsDoneGrid = 92 \<and>
   card_id (plain SPADES TWO) \<in> getLockedCards heartsDoneGrid"
  using complete_hearts_row [of 0 heartsDoneGrid, OF _ heartsDoneGrid_row0 heartsDoneGrid_hearts]
    heartsDoneGrid_row0 heartsDoneGrid_score heartsDoneGrid_locked
  by simp

text \<open>C8 as worded fails on such a board: row 0 is the complete run of hearts, the
  other three rows are incomplete, and the locked set holds an id that is not one of the
  twelve of row 0.\<close>

theorem complete_hearts_row_counterexample:
  "valid_grid heartsDoneGrid \<and>
   heartsDoneGrid ! 0 = map Some (map (plain HEARTS) (butlast RANKS)) @ [None] \<and>
   \<not> isRowComplete (heartsDoneGrid ! 1) \<and> \<not> isRowComplete (heartsDoneGrid ! 2) \<and>
   \<not> isRowComplete (heartsDoneGrid ! 3) \<and>
   getLockedCards heartsDoneGrid \<noteq> card_id ` set (cardsOf (heartsDoneGrid ! 0))"
  using heartsDoneGrid_shape heartsDoneGrid_row0 heartsDoneGrid_locked by auto

section \<open>The scan of the reshuffle\<close>

lemma length_blank [simp]: "length (blank p n row) = length row"
  by (simp add: blank_def)

lemma nth_blank:
  "c < length row \<Longrightarrow> blank p n row ! c = (if p \<le> c \<and> c < n then None else row ! c)"
  by (simp add: blank_def)

lemma blank_untouched: "n \<le> p \<Longrightarrow> blank p n row = row"
  by (rule nth_equalityI) (auto simp: nth_blank)

lemma blank_step:
  "n < length row \<Longrightarrow> p \<le> n \<Longrightarrow> (blank p n row)[n := None] = blank p (Suc n) row"
  by (rule nth_equalityI) (auto simp: nth_blank nth_list_update)

lemma blank_all:
  "p \<le> length row \<Longrightarrow> blank p (length row) row = take p row @ replicate (length row - p) None"
  by (rule nth_equalityI) (auto simp: nth_blank nth_append)

lemma collect_scanned:
  assumes "r < length G" "n < length (G ! r)" "lockedPrefixLen (G ! r) \<le> n"
  shows "collect r n (scanned G r cs ps n) = scanned G r cs ps (Suc n)"
proof -
  let ?row = "G ! r" and ?p = "lockedPrefixLen (G ! r)"
  have cell: "cellAt (blank ?p n ?row) n = ?row ! n"
    using assms by (simp add: cellAt_def nth_blank)
  have take: "take (Suc n - ?p) (drop ?p ?row) = take (n - ?p) (drop ?p ?row) @ [?row ! n]"
    using assms by (simp add: Suc_diff_le take_Suc_conv_app_nth)
  have upt: "[?p..<Suc n] = [?p..<n] @ [n]"
    using assms by simp
  show ?thesis
    using assms
    by (cases "?row ! n")
      (simp_all add: collect_def scanned_def cell take upt setCell_def setAt_def blank_step
        del: upt_Suc)
qed

lemma scanCell_scanned:
  assumes "r < length G" "n < length (G ! r)"
  shows "scanCell r n (max n 1 \<le> lockedPrefixLen (G ! r), scanned G r cs ps n)
       = (max (Suc n) 1 \<le> lockedPrefixLen (G ! r), scanned G r cs ps (Suc n))"
proof -
  let ?row = "G ! r" and ?p = "lockedPrefixLen (G ! r)"
  consider (locked) "n < ?p" | (break0) "n = 0" "?p = 0" | (break) "0 < n" "n = ?p"
    | (free) "0 < n" "?p < n"
    by linarith
  then show ?thesis
  proof cases
    case locked
    have same: "scanned G r cs ps (Suc n) = scanned G r cs ps n"
      using locked by (simp add: scanned_def blank_untouched)
    show ?thesis
    proof (cases "n = 0")
      case True
      with locked same show ?thesis by (simp add: scanCell_def)
    next
      case False
      from lockedPrefixLen_nth[OF locked] obtain c0 cu where
        cu: "?row ! 0 = Some c0" "?row ! n = Some cu" "suit cu = suit c0"
            "getRankValue (rank cu) = int n + 2"
        by blast
      from False locked have "n - 1 < ?p" by simp
      from lockedPrefixLen_nth[OF this] cu(1) obtain pr where
        pr: "?row ! (n - 1) = Some pr" "suit pr = suit c0"
            "getRankValue (rank pr) = int (n - 1) + 2"
        by auto
      have cells: "cellAt (newGrid (scanned G r cs ps n) ! r) n = Some cu"
        "cellAt (newGrid (scanned G r cs ps n) ! r) (n - Suc 0) = Some pr"
        using assms locked cu pr by (simp_all add: scanned_def blank_untouched cellAt_def)
      have val: "getRankValue (rank cu) = getRankValue (rank pr) + 1"
        using cu pr False by (simp add: of_nat_diff)
      show ?thesis
        using locked False cu(3) pr(2) val
        by (simp add: scanCell_def cells same)
    qed
  next
    case break0
    then show ?thesis
      using collect_scanned[OF assms, of cs ps] by (simp add: scanCell_def)
  next
    case break
    from break have pos: "0 < ?p" by simp
    from break have "n - 1 < ?p" by simp
    from lockedPrefixLen_nth[OF this] obtain c0 pr where
      pr: "?row ! 0 = Some c0" "?row ! (n - 1) = Some pr" "suit pr = suit c0"
          "getRankValue (rank pr) = int (n - 1) + 2"
      by blast
    have no: "\<not> (\<exists>c. ?row ! n = Some c \<and> suit c = suit c0 \<and> getRankValue (rank c) = int n + 2)"
      using lockedPrefixLen_break[OF pos] assms(2) break pr(1) by auto
    have cells: "cellAt (newGrid (scanned G r cs ps n) ! r) n = ?row ! n"
      "cellAt (newGrid (scanned G r cs ps n) ! r) (n - Suc 0) = Some pr"
      using assms break pr by (simp_all add: scanned_def blank_untouched cellAt_def)
    have val: "getRankValue (rank pr) + 1 = int n + 2"
      using pr break(1) by (simp add: of_nat_diff)
    have "scanCell r n (True, scanned G r cs ps n) = (False, collect r n (scanned G r cs ps n))"
      using break(1) no pr(3) val
      by (cases "?row ! n") (auto simp: scanCell_def cells)
    then show ?thesis
      using collect_scanned[OF assms, of cs ps] break by simp
  next
    case free
    then show ?thesis
      using collect_scanned[OF assms, of cs ps] by (simp add: scanCell_def)
  qed
qed

lemma scanned_0:
  "r < length G \<Longrightarrow> scanned G r cs ps 0 = \<lparr> newGrid = G, cardsToShuffle = cs, positionsToFill = ps \<rparr>"
  by (simp add: scanned_def blank_untouched)

lemma fold_scanCell:
  assumes "r < length G" "n \<le> length (G ! r)"
  shows "fold (scanCell r) [0..<n] (0 < lockedPrefixLen (G ! r), scanned G r cs ps 0)
       = (max n 1 \<le> lockedPrefixLen (G ! r), scanned G r cs ps n)"
  using assms(2)
proof (induction n)
  case 0
  show ?case by (auto simp: Suc_le_eq)
next
  case (Suc n)
  then have "n < length (G ! r)" by simp
  from scanCell_scanned[OF assms(1) this] Suc show ?case by simp
qed

lemma scanRow_eq:
  assumes "r < length G" "length (G ! r) = cols"
  shows "scanRow r \<lparr> newGrid = G, cardsToShuffle = cs, positionsToFill = ps \<rparr>
       = Inr \<lparr> newGrid = G[r := frozenRow (G ! r)],
               cardsToShuffle = cs @ freeCards (G ! r),
               positionsToFill = ps @ map (Pair r) [lockedPrefixLen (G ! r)..<cols] \<rparr>"
proof -
  have start: "(case cellAt (G ! r) 0 of None \<Rightarrow> False | Some c0 \<Rightarrow> rank c0 = TWO)
      = (0 < lockedPrefixLen (G ! r))"
    by (auto simp: lockedPrefixLen_pos split: option.splits)
  have finish: "scanned G r cs ps cols = \<lparr> newGrid = G[r := frozenRow (G ! r)],
               cardsToShuffle = cs @ freeCards (G ! r),
               positionsToFill = ps @ map (Pair r) [lockedPrefixLen (G ! r)..<cols] \<rparr>"
    using blank_all[OF lockedPrefixLen_le, of "G ! r"] assms(2)
    by (simp add: scanned_def frozenRow_def freeCards_def)
  show ?thesis
    using assms fold_scanCell[OF assms(1), of cols cs ps]
    by (simp add: scanRow_def start scanned_0 finish)
qed

lemma scanRows_append:
  "scanRows (xs @ ys) st =
     (case scanRows xs st of Inl e \<Rightarrow> Inl e | Inr st' \<Rightarrow> scanRows ys st')"
  by (induction xs arbitrary: st) (auto split: sum.splits)

lemma frozen_step:
  assumes "m < length g"
  shows "(map frozenRow (take m g) @ drop m g)[m := frozenRow (g ! m)]
       = map frozenRow (take (Suc m) g) @ drop (Suc m) g"
proof -
  have "drop m g = g ! m # drop (Suc m) g"
    using assms by (simp add: Cons_nth_drop_Suc)
  then show ?thesis
    using assms by (simp add: take_Suc_conv_app_nth list_update_append)
qed

lemma scanRows_upto:
  assumes "\<forall>row \<in> set g. length row = cols" "m \<le> length g"
  shows "scanRows [0..<m] \<lparr> newGrid = g, cardsToShuffle = [], positionsToFill = [] \<rparr>
       = Inr \<lparr> newGrid = map frozenRow (take m g) @ drop m g,
               cardsToShuffle = concat (map freeCards (take m g)),
               positionsToFill = freePositions g m \<rparr>"
  using assms(2)
proof (induction m)
  case 0
  show ?case by (simp add: freePositions_def)
next
  case (Suc m)
  let ?G = "map frozenRow (take m g) @ drop m g"
  from Suc.prems have m: "m < length g" by simp
  have at: "?G ! m = g ! m" using m by (simp add: nth_append)
  have len: "m < length ?G" using m by simp
  have cols: "length (?G ! m) = cols" using assms(1) m at by simp
  have step: "scanRow m \<lparr> newGrid = ?G, cardsToShuffle = concat (map freeCards (take m g)),
               positionsToFill = freePositions g m \<rparr>
       = Inr \<lparr> newGrid = map frozenRow (take (Suc m) g) @ drop (Suc m) g,
               cardsToShuffle = concat (map freeCards (take (Suc m) g)),
               positionsToFill = freePositions g (Suc m) \<rparr>"
    using m by (simp add: scanRow_eq[OF len cols] at frozen_step take_Suc_conv_app_nth
        freePositions_def)
  show ?case
    using Suc.IH m step by (simp add: scanRows_append)
qed

lemma collectFree_eq:
  assumes "valid_grid g"
  shows "collectFree g = Inr \<lparr> newGrid = map frozenRow g,
               cardsToShuffle = concat (map freeCards g),
               positionsToFill = freePositions g rows \<rparr>"
  using assms scanRows_upto[of g rows]
  by (simp add: collectFree_def valid_grid_def)

section \<open>The free positions\<close>

lemma in_freePositions:
  "((r, c) \<in> set (freePositions g m)) = (r < m \<and> lockedPrefixLen (g ! r) \<le> c \<and> c < cols)"
  by (force simp: freePositions_def)

lemma freePositions_row:
  "filter (\<lambda>p. fst p = r) (freePositions g m)
     = (if r < m then map (Pair r) [lockedPrefixLen (g ! r)..<cols] else [])"
proof (induction m)
  case 0
  show ?case by (simp add: freePositions_def)
next
  case (Suc m)
  have new: "filter (\<lambda>p. fst p = r) (map (Pair m) [lockedPrefixLen (g ! m)..<cols])
      = (if r = m then map (Pair m) [lockedPrefixLen (g ! m)..<cols] else [])"
    by (auto simp: filter_map o_def)
  have "freePositions g (Suc m)
      = freePositions g m @ map (Pair m) [lockedPrefixLen (g ! m)..<cols]"
    by (simp add: freePositions_def)
  with Suc new show ?case by auto
qed

lemma drop_as_nth: "drop p row = map (\<lambda>c. row ! c) [p..<length row]"
proof -
  have "drop p (map (\<lambda>c. row ! c) [0..<length row]) = map (\<lambda>c. row ! c) [p..<length row]"
    by (simp add: drop_map)
  then show ?thesis by (simp add: map_nth)
qed

lemma freeCards_cells:
  assumes "\<forall>row \<in> set g. length row = cols" "m \<le> length g"
  shows "concat (map freeCards (take m g)) = cardsOf (map (\<lambda>(r, c). g ! r ! c) (freePositions g m))"
  using assms(2)
proof (induction m)
  case 0
  show ?case by (simp add: freePositions_def)
next
  case (Suc m)
  then have m: "m < length g" by simp
  then have len: "length (g ! m) = cols" using assms(1) by simp
  have "freeCards (g ! m)
      = cardsOf (map (\<lambda>(r, c). g ! r ! c) (map (Pair m) [lockedPrefixLen (g ! m)..<cols]))"
    using drop_as_nth[of "lockedPrefixLen (g ! m)" "g ! m"] len
    by (simp add: freeCards_def o_def)
  moreover have "freePositions g (Suc m)
      = freePositions g m @ map (Pair m) [lockedPrefixLen (g ! m)..<cols]"
    by (simp add: freePositions_def)
  ultimately show ?case
    using Suc m by (simp add: take_Suc_conv_app_nth)
qed



lemma mset_row_in_concat:
  "r < length g \<Longrightarrow> mset (f (g ! r)) \<subseteq># mset (concat (map f g))"
proof (induction g arbitrary: r)
  case Nil
  then show ?case by simp
next
  case (Cons row g)
  show ?case
  proof (cases r)
    case 0
    then show ?thesis by simp
  next
    case (Suc r')
    with Cons.prems Cons.IH[of r'] have "mset (f (g ! r')) \<subseteq># mset (concat (map f g))"
      by simp
    then have "mset (f (g ! r')) \<subseteq># mset (f row) + mset (concat (map f g))"
      by (metis add.commute subset_mset.add_increasing2 empty_le)
    with Suc show ?thesis by simp
  qed
qed

lemma openingGrid_row1: "\<exists>c0. openingGrid ! 1 ! 0 = Some c0 \<and> rank c0 \<noteq> TWO"
  by (simp add: openingGrid_def plain_def mkCard_def)

text \<open>C7. In a structurally valid grid, a row whose first cell is a gap or a card that is
  not a two is free as a whole: the scan collects its thirteen positions, every card of the
  row joins the cards to shuffle, and the row is emptied in the copy.\<close>

theorem non_two_row_is_free:
  assumes "valid_grid g" "r < 4"
    and "g ! r ! 0 = None \<or> (\<exists>c0. g ! r ! 0 = Some c0 \<and> rank c0 \<noteq> TWO)"
  shows "\<exists>st. collectFree g = Inr st
       \<and> filter (\<lambda>p. fst p = r) (positionsToFill st) = map (Pair r) [0..<13]
       \<and> mset (cardsOf (g ! r)) \<subseteq># mset (cardsToShuffle st)
       \<and> newGrid st ! r = replicate 13 None"
proof -
  have len: "length g = 4" "length (g ! r) = 13"
    using assms(1,2) by (simp_all add: valid_grid_length valid_grid_row)
  have "\<not> (\<exists>c0. cellAt (g ! r) 0 = Some c0 \<and> rank c0 = TWO)"
    using assms(3) len by (auto simp: cellAt_def)
  then have p: "lockedPrefixLen (g ! r) = 0"
    using lockedPrefixLen_pos[of "g ! r"] by auto
  have pos: "filter (\<lambda>p. fst p = r) (freePositions g rows) = map (Pair r) [0..<13]"
    using assms(2) p by (simp add: freePositions_row rows_def cols_def)
  have "mset (freeCards (g ! r)) \<subseteq># mset (concat (map freeCards g))"
    using mset_row_in_concat[of r g freeCards] assms(2) len by simp
  then have cards: "mset (cardsOf (g ! r)) \<subseteq># mset (concat (map freeCards g))"
    using p by (simp add: freeCards_def)
  have row: "map frozenRow g ! r = replicate 13 None"
    using assms(2) len p by (simp add: frozenRow_def)
  show ?thesis
    using collectFree_eq[OF assms(1)] pos cards row by simp
qed

theorem non_two_row_is_free_witness:
  "valid_grid openingGrid \<and> (\<exists>c0. openingGrid ! 1 ! 0 = Some c0 \<and> rank c0 \<noteq> TWO) \<and>
   (\<exists>st. collectFree openingGrid = Inr st
       \<and> filter (\<lambda>p. fst p = 1) (positionsToFill st) = map (Pair 1) [0..<13]
       \<and> mset (cardsOf (openingGrid ! 1)) \<subseteq># mset (cardsToShuffle st)
       \<and> newGrid st ! 1 = replicate 13 None)"
  using non_two_row_is_free [of openingGrid 1] valid_openingGrid openingGrid_row1
  by simp







section \<open>Shuffling, padding and assigning back\<close>

lemma random_index:
  assumes "rnd_ok rnd"
  shows "nat \<lfloor>rnd k * real (Suc i)\<rfloor> \<le> i"
proof -
  from assms have r: "0 \<le> rnd k" "rnd k < 1" by (simp_all add: rnd_ok_def)
  have "rnd k * real (Suc i) < real (Suc i)"
    using r by (simp add: mult_less_cancel_right1 del: of_nat_Suc)
  then have "\<lfloor>rnd k * real (Suc i)\<rfloor> < int (Suc i)"
    by (simp add: floor_less_iff del: of_nat_Suc)
  then show ?thesis by simp
qed

lemma mset_swap_list:
  "i < length xs \<Longrightarrow> j < length xs \<Longrightarrow> mset (swap i j xs) = mset xs"
  by (simp add: swap_def mset_swap)

lemma length_swap [simp]: "length (swap i j xs) = length xs"
  by (simp add: swap_def)

lemma fisherYates_mset:
  assumes "rnd_ok rnd"
  shows "m \<le> length xs - 1 \<Longrightarrow> mset (fst (fisherYates rnd m k xs)) = mset xs"
proof (induction m arbitrary: k xs)
  case 0
  show ?case by simp
next
  case (Suc m)
  let ?j = "nat \<lfloor>rnd k * real (Suc m + 1)\<rfloor>"
  have j: "?j \<le> Suc m" using random_index[OF assms, of k "Suc m"] by simp
  from Suc.prems have i: "Suc m < length xs" by simp
  have "mset (swap (Suc m) ?j xs) = mset xs"
    using i j by (simp add: mset_swap_list)
  moreover have "mset (fst (fisherYates rnd m (Suc k) (swap (Suc m) ?j xs)))
      = mset (swap (Suc m) ?j xs)"
    using i by (intro Suc.IH) simp
  ultimately show ?case by (simp add: Let_def)
qed

lemma fisherYates_length:
  assumes "rnd_ok rnd" "m \<le> length xs - 1"
  shows "length (fst (fisherYates rnd m k xs)) = length xs"
  using fisherYates_mset[OF assms] mset_eq_length by blast

declare padItems.simps [simp del]

lemma padItems_eq: "padItems fillItems n = fillItems @ replicate (n - length fillItems) None"
proof (induction fillItems n rule: padItems.induct)
  case (1 fillItems n)
  show ?case
  proof (cases "length fillItems < n")
    case True
    then have "n - length fillItems = Suc (n - Suc (length fillItems))" by simp
    with True "1.IH" show ?thesis
      by (subst padItems.simps) (simp add: replicate_app_Cons_same)
  next
    case False
    then show ?thesis by (subst padItems.simps) simp
  qed
qed

lemma setCell_shape:
  "inGrid g (r, c) \<Longrightarrow> map length (setCell g r c v) = map length g"
  by (auto simp: inGrid_def setCell_def setAt_def map_update list_update_same_conv)

lemma inGrid_shape: "map length g' = map length g \<Longrightarrow> inGrid g' = inGrid g"
  by (auto simp: inGrid_def fun_eq_iff dest: map_eq_imp_length_eq)
    (metis length_map nth_map)+

lemma setCell_nth:
  assumes "inGrid g (r, c)" "inGrid g (r', c')"
  shows "setCell g r c v ! r' ! c' = (if r' = r \<and> c' = c then v else g ! r' ! c')"
  using assms by (auto simp: inGrid_def setCell_def setAt_def nth_list_update)

lemma assignBack_shape:
  "\<forall>p \<in> set ps. inGrid g p \<Longrightarrow> map length (assignBack ps idx fillItems g) = map length g"
proof (induction ps arbitrary: idx g)
  case Nil
  show ?case by simp
next
  case (Cons p ps)
  obtain r c where p: "p = (r, c)" by (cases p)
  let ?g = "setCell g r c (cellAt fillItems idx)"
  have shape: "map length ?g = map length g"
    using Cons.prems p by (simp add: setCell_shape)
  then have "\<forall>p \<in> set ps. inGrid ?g p"
    using Cons.prems inGrid_shape[OF shape] by simp
  from Cons.IH[OF this] shape p show ?case by simp
qed

lemma assignBack_other:
  "\<forall>p \<in> set ps. inGrid g p \<Longrightarrow> inGrid g (r, c) \<Longrightarrow> (r, c) \<notin> set ps \<Longrightarrow>
   assignBack ps idx fillItems g ! r ! c = g ! r ! c"
proof (induction ps arbitrary: idx g)
  case Nil
  show ?case by simp
next
  case (Cons p ps)
  obtain r' c' where p: "p = (r', c')" by (cases p)
  let ?g = "setCell g r' c' (cellAt fillItems idx)"
  have shape: "map length ?g = map length g"
    using Cons.prems p by (simp add: setCell_shape)
  have "assignBack ps (idx + 1) fillItems ?g ! r ! c = ?g ! r ! c"
    using Cons.prems inGrid_shape[OF shape] by (intro Cons.IH) simp_all
  also have "\<dots> = g ! r ! c"
    using Cons.prems p by (auto simp: setCell_nth)
  finally show ?case using p by simp
qed

lemma assignBack_nth:
  "\<forall>p \<in> set ps. inGrid g p \<Longrightarrow> distinct ps \<Longrightarrow> k < length ps \<Longrightarrow>
   assignBack ps idx fillItems g ! fst (ps ! k) ! snd (ps ! k) = cellAt fillItems (idx + k)"
proof (induction ps arbitrary: idx g k)
  case Nil
  then show ?case by simp
next
  case (Cons p ps)
  obtain r' c' where p: "p = (r', c')" by (cases p)
  let ?g = "setCell g r' c' (cellAt fillItems idx)"
  have shape: "map length ?g = map length g"
    using Cons.prems p by (simp add: setCell_shape)
  have valid: "\<forall>p \<in> set ps. inGrid ?g p"
    using Cons.prems inGrid_shape[OF shape] by simp
  show ?case
  proof (cases k)
    case 0
    have "assignBack ps (idx + 1) fillItems ?g ! r' ! c' = ?g ! r' ! c'"
      using Cons.prems p valid inGrid_shape[OF shape] by (intro assignBack_other) simp_all
    also have "\<dots> = cellAt fillItems idx"
      using Cons.prems p by (simp add: setCell_nth)
    finally show ?thesis using 0 p by simp
  next
    case (Suc k')
    with Cons.prems have "k' < length ps" "distinct ps" by simp_all
    from Cons.IH[OF valid this(2,1), of "idx + 1"] Suc p show ?thesis by simp
  qed
qed

section \<open>The result of the reshuffle\<close>

lemma freePositions_Suc:
  "freePositions g (Suc m) = freePositions g m @ map (Pair m) [lockedPrefixLen (g ! m)..<cols]"
  by (simp add: freePositions_def)

lemma distinct_freePositions: "distinct (freePositions g m)"
proof (induction m)
  case 0
  show ?case by (simp add: freePositions_def)
next
  case (Suc m)
  have "distinct (map (Pair m) [lockedPrefixLen (g ! m)..<cols])"
    by (simp add: distinct_map inj_on_def)
  moreover have "set (freePositions g m) \<inter> set (map (Pair m) [lockedPrefixLen (g ! m)..<cols]) = {}"
    by (auto simp: in_freePositions)
  ultimately show ?case using Suc by (simp add: freePositions_Suc)
qed

lemma length_frozenRow [simp]: "length (frozenRow row) = length row"
  using lockedPrefixLen_le[of row] by (simp add: frozenRow_def)

lemma frozenRow_nth: "c < lockedPrefixLen row \<Longrightarrow> frozenRow row ! c = row ! c"
  using lockedPrefixLen_le[of row] by (simp add: frozenRow_def nth_append)

lemma cells_cards_gaps:
  "mset cells = mset (map Some (cardsOf cells))
     + mset (replicate (length cells - length (cardsOf cells)) None)
   \<and> length (cardsOf cells) \<le> length cells"
proof (induction cells)
  case Nil
  show ?case by simp
next
  case (Cons x cells)
  then show ?case
    by (cases x) (auto simp: Suc_diff_le)
qed


text \<open>What \<^verbatim>\<open>reshuffleBoard\<close> returns on a structurally valid grid: the frozen copy with
  the free positions filled from a list that is a permutation of the free cells.\<close>

lemma reshuffleBoard_result:
  assumes "valid_grid g" "rnd_ok rnd"
  shows "\<exists>fillItems.
           reshuffleBoard rnd g
             = Inr (assignBack (freePositions g rows) 0 fillItems (map frozenRow g))
         \<and> mset fillItems = mset (map (\<lambda>(r, c). g ! r ! c) (freePositions g rows))
         \<and> length fillItems = length (freePositions g rows)"
proof -
  let ?ps = "freePositions g rows"
  let ?cs = "concat (map freeCards g)"
  let ?cells = "map (\<lambda>(r, c). g ! r ! c) ?ps"
  define shuffled where "shuffled = fst (fisherYates rnd (length ?cs - 1) 0 ?cs)"
  define k where "k = snd (fisherYates rnd (length ?cs - 1) 0 ?cs)"
  define fillItems0 where "fillItems0 = padItems (map Some shuffled) (length ?ps)"
  define fillItems where "fillItems = fst (fisherYates rnd (length fillItems0 - 1) k fillItems0)"
  have all13: "\<forall>row \<in> set g. length row = cols" and len: "rows \<le> length g"
    using assms(1) by (simp_all add: valid_grid_def)
  have cs: "?cs = cardsOf ?cells"
    using freeCards_cells[OF all13 len] assms(1) by (simp add: valid_grid_def)
  have shuffled: "mset shuffled = mset ?cs"
    unfolding shuffled_def by (rule fisherYates_mset[OF assms(2)]) simp
  then have len_sh: "length shuffled = length (cardsOf ?cells)"
    using cs mset_eq_length by metis
  have fill0: "fillItems0 = map Some shuffled @ replicate (length ?cells - length (cardsOf ?cells)) None"
    by (simp add: fillItems0_def padItems_eq len_sh)
  have "mset fillItems0 = mset ?cells"
    using cells_cards_gaps[of ?cells] shuffled cs by (simp add: fill0)
  moreover have "mset fillItems = mset fillItems0"
    unfolding fillItems_def by (rule fisherYates_mset[OF assms(2)]) simp
  ultimately have m: "mset fillItems = mset ?cells" by simp
  then have l: "length fillItems = length ?ps"
    using mset_eq_length by fastforce
  have "reshuffleBoard rnd g = Inr (assignBack ?ps 0 fillItems (map frozenRow g))"
    by (simp add: reshuffleBoard_def collectFree_eq[OF assms(1)] case_prod_beta Let_def
        fillItems_def fillItems0_def k_def shuffled_def)
  with m l show ?thesis by blast
qed


lemma reshuffleBoard_cells:
  assumes "valid_grid g" "rnd_ok rnd"
  shows "\<exists>g'. reshuffleBoard rnd g = Inr g' \<and> map length g' = map length g
       \<and> (\<forall>r<4. \<forall>c<lockedPrefixLen (g ! r). g' ! r ! c = g ! r ! c)
       \<and> mset (map (\<lambda>(r, c). g' ! r ! c) (freePositions g rows))
           = mset (map (\<lambda>(r, c). g ! r ! c) (freePositions g rows))"
proof -
  let ?ps = "freePositions g rows"
  let ?G0 = "map frozenRow g"
  from reshuffleBoard_result[OF assms] obtain fillItems where
    res: "reshuffleBoard rnd g = Inr (assignBack ?ps 0 fillItems ?G0)"
    and m: "mset fillItems = mset (map (\<lambda>(r, c). g ! r ! c) ?ps)"
    and l: "length fillItems = length ?ps"
    by blast
  let ?g' = "assignBack ?ps 0 fillItems ?G0"
  have len: "length g = 4" "\<And>r. r < 4 \<Longrightarrow> length (g ! r) = 13"
    using assms(1) by (simp_all add: valid_grid_length valid_grid_row)
  have shape0: "map length ?G0 = map length g" by simp
  have inside: "\<forall>p \<in> set ?ps. inGrid ?G0 p"
    using len by (auto simp: in_freePositions inGrid_def rows_def cols_def)
  have shape: "map length ?g' = map length g"
    using assignBack_shape[OF inside] shape0 by simp
  have locked: "?g' ! r ! c = g ! r ! c" if "r < 4" "c < lockedPrefixLen (g ! r)" for r c
  proof -
    have c: "c < 13" using that lockedPrefixLen_le[of "g ! r"] len by simp
    have "inGrid ?G0 (r, c)" using that c len by (simp add: inGrid_def)
    moreover have "(r, c) \<notin> set ?ps" using that by (simp add: in_freePositions)
    ultimately have "?g' ! r ! c = ?G0 ! r ! c"
      using assignBack_other[OF inside] by blast
    also have "\<dots> = g ! r ! c" using that len by (simp add: frozenRow_nth)
    finally show ?thesis .
  qed
  have "map (\<lambda>(r, c). ?g' ! r ! c) ?ps = fillItems"
  proof (rule nth_equalityI)
    show "length (map (\<lambda>(r, c). ?g' ! r ! c) ?ps) = length fillItems" using l by simp
  next
    fix k assume "k < length (map (\<lambda>(r, c). ?g' ! r ! c) ?ps)"
    then have k: "k < length ?ps" by simp
    from assignBack_nth[OF inside distinct_freePositions k, of 0 fillItems] k l
    show "map (\<lambda>(r, c). ?g' ! r ! c) ?ps ! k = fillItems ! k"
      by (simp add: case_prod_beta cellAt_def)
  qed
  with m have "mset (map (\<lambda>(r, c). ?g' ! r ! c) ?ps) = mset (map (\<lambda>(r, c). g ! r ! c) ?ps)"
    by simp
  with res shape locked show ?thesis by simp
qed


section \<open>Conservation under reshuffle\<close>


lemma rnd_ok_half: "rnd_ok (\<lambda>k. 1 / 2)"
  by (simp add: rnd_ok_def)





section \<open>Reshuffling a won board\<close>

lemma complete_row_locked:
  assumes "isRowComplete row" "length row = 13"
  shows "lockedPrefixLen row = 12"
proof -
  from assms isRowComplete_iff[OF assms(2)] obtain c0 where
    last: "row ! 12 = None" and c0: "row ! 0 = Some c0" "rank c0 = TWO"
    and run: "\<forall>i<12. \<exists>c. row ! i = Some c \<and> suit c = suit c0 \<and> getRankValue (rank c) = int i + 2"
    by auto
  have pos: "0 < lockedPrefixLen row"
    using c0 assms(2) by (simp add: lockedPrefixLen_pos cellAt_def)
  have "\<not> lockedPrefixLen row < 12"
  proof
    assume less: "lockedPrefixLen row < 12"
    then have "lockedPrefixLen row < length row" using assms(2) by simp
    from lockedPrefixLen_break[OF pos this] run less c0 show False by auto
  qed
  moreover have "\<not> 12 < lockedPrefixLen row"
  proof
    assume "12 < lockedPrefixLen row"
    from lockedPrefixLen_nth[OF this] last show False by simp
  qed
  ultimately show ?thesis by simp
qed

lemma drop_last_gap:
  assumes "length row = 13" "row ! 12 = None"
  shows "drop 12 row = [None]"
  using Cons_nth_drop_Suc[of 12 row] assms by simp

lemma won_scan:
  assumes "valid_grid g" "checkWinCondition g"
  shows "collectFree g = Inr \<lparr> newGrid = g, cardsToShuffle = [],
           positionsToFill = [(0, 12), (1, 12), (2, 12), (3, 12)] \<rparr>"
proof -
  have len: "length g = 4" "\<And>r. r < 4 \<Longrightarrow> length (g ! r) = 13"
    using assms(1) by (simp_all add: valid_grid_length valid_grid_row)
  have rows13: "\<forall>row \<in> set g. length row = 13"
    using assms(1) by (simp add: valid_grid_def cols_def)
  have p: "\<forall>row \<in> set g. lockedPrefixLen row = 12"
    using assms(2) rows13 complete_row_locked by (simp add: checkWinCondition_iff)
  have last: "\<forall>row \<in> set g. row ! 12 = None"
    using assms(2) rows13 isRowComplete_iff by (auto simp: checkWinCondition_iff)
  have "\<forall>row \<in> set g. frozenRow row = row"
  proof
    fix row assume row: "row \<in> set g"
    with rows13 p last have "length row = 13" "lockedPrefixLen row = 12" "row ! 12 = None"
      by simp_all
    then have "drop 12 row = [None]"
      by (simp add: drop_last_gap)
    with \<open>length row = 13\<close> \<open>lockedPrefixLen row = 12\<close> show "frozenRow row = row"
      by (simp add: frozenRow_def) (metis append_take_drop_id)
  qed
  then have frozen: "map frozenRow g = g" by (simp add: map_idI)
  have "\<forall>row \<in> set g. freeCards row = []"
  proof
    fix row assume row: "row \<in> set g"
    with rows13 p last have "length row = 13" "lockedPrefixLen row = 12" "row ! 12 = None"
      by simp_all
    then have "drop 12 row = [None]"
      by (simp add: drop_last_gap)
    with \<open>lockedPrefixLen row = 12\<close> show "freeCards row = []" by (simp add: freeCards_def)
  qed
  then have cards: "concat (map freeCards g) = []" by simp
  have "\<forall>r<4. lockedPrefixLen (g ! r) = 12"
    using p len by simp
  then have pos: "freePositions g rows = [(0, 12), (1, 12), (2, 12), (3, 12)]"
    by (simp add: freePositions_def rows_def cols_def upt_rec numeral_eq_Suc)
  show ?thesis
    by (simp add: collectFree_eq[OF assms(1)] frozen cards pos)
qed

text \<open>C10. On a structurally valid grid that satisfies the win test, with a random source
  in [0, 1), the scan locks the twelve cards of every row and collects only the four gaps
  of column 12, no card is shuffled, and the reshuffle returns the grid itself.\<close>

theorem reshuffle_won_grid:
  assumes "valid_grid g" "checkWinCondition g" "rnd_ok rnd"
  shows "reshuffleBoard rnd g = Inr g
       \<and> collectFree g = Inr \<lparr> newGrid = g, cardsToShuffle = [],
           positionsToFill = [(0, 12), (1, 12), (2, 12), (3, 12)] \<rparr>"
proof -
  have len: "length g = 4" "\<And>r. r < 4 \<Longrightarrow> length (g ! r) = 13"
    using assms(1) by (simp_all add: valid_grid_length valid_grid_row)
  have rows13: "\<forall>row \<in> set g. length row = 13"
    using assms(1) by (simp add: valid_grid_def cols_def)
  have p: "lockedPrefixLen (g ! r) = 12" and last: "g ! r ! 12 = None" if "r < 4" for r
    using assms(2) rows13 len that complete_row_locked isRowComplete_iff
    by (auto simp: checkWinCondition_iff)
  have pos: "freePositions g rows = [(0, 12), (1, 12), (2, 12), (3, 12)]"
    using won_scan[OF assms(1,2)] collectFree_eq[OF assms(1)] by simp
  from reshuffleBoard_cells[OF assms(1,3)] obtain g' where
    res: "reshuffleBoard rnd g = Inr g'" and shape: "map length g' = map length g"
    and locked: "\<forall>r<4. \<forall>c<lockedPrefixLen (g ! r). g' ! r ! c = g ! r ! c"
    and free: "mset (map (\<lambda>(r, c). g' ! r ! c) (freePositions g rows))
           = mset (map (\<lambda>(r, c). g ! r ! c) (freePositions g rows))"
    by blast
  have same_set: "set (map (\<lambda>(r, c). g' ! r ! c) (freePositions g rows))
      = set (map (\<lambda>(r, c). g ! r ! c) (freePositions g rows))"
    using free by (rule mset_eq_setD)
  have last': "g' ! r ! 12 = None" if "r < 4" for r
  proof -
    have "(r, 12) \<in> set (freePositions g rows)"
      using that p by (simp add: in_freePositions rows_def cols_def)
    then have "g' ! r ! 12 \<in> set (map (\<lambda>(r, c). g' ! r ! c) (freePositions g rows))"
      by force
    then have "g' ! r ! 12 \<in> set (map (\<lambda>(r, c). g ! r ! c) (freePositions g rows))"
      using same_set by simp
    then show ?thesis using last by (auto simp: pos)
  qed
  have len': "length g' = 4" "\<And>r. r < 4 \<Longrightarrow> length (g' ! r) = 13"
    using shape len by (metis length_map, metis length_map nth_map)
  have "g' = g"
  proof (rule nth_equalityI)
    show "length g' = length g" using len len' by simp
  next
    fix r assume "r < length g'"
    then have r: "r < 4" using len' by simp
    show "g' ! r = g ! r"
    proof (rule nth_equalityI)
      show "length (g' ! r) = length (g ! r)" using r len len' by simp
    next
      fix c assume "c < length (g' ! r)"
      then have "c < 12 \<or> c = 12" using r len' by auto
      then show "g' ! r ! c = g ! r ! c"
        using r locked p last last' by auto
    qed
  qed
  with res won_scan[OF assms(1,2)] show ?thesis by simp
qed

theorem reshuffle_won_grid_witness:
  "valid_grid wonGrid \<and> checkWinCondition wonGrid \<and> rnd_ok (\<lambda>k. 1 / 2) \<and>
   reshuffleBoard (\<lambda>k. 1 / 2) wonGrid = Inr wonGrid"
  using reshuffle_won_grid [OF valid_wonGrid wonGrid_wins rnd_ok_half]
    valid_wonGrid wonGrid_wins rnd_ok_half
  by simp

section \<open>The initial board\<close>

lemma generateDeck_ranks_keys:
  "map (\<lambda>c. (suit c, rank c)) (fst (generateDeck_ranks tag rnd s rs (deck, k)))
     = map (\<lambda>c. (suit c, rank c)) deck @ map (Pair s) rs"
  by (induction rs arbitrary: deck k) (simp_all add: mkCard_def)

lemma generateDeck_suits_keys:
  "map (\<lambda>c. (suit c, rank c)) (fst (generateDeck_suits tag rnd ss p))
     = map (\<lambda>c. (suit c, rank c)) (fst p) @ concat (map (\<lambda>s. map (Pair s) RANKS) ss)"
proof (induction ss arbitrary: p)
  case Nil
  show ?case by (cases p) simp
next
  case (Cons s ss)
  obtain deck k where p: "p = (deck, k)" by (cases p)
  show ?case
    using Cons[of "generateDeck_ranks tag rnd s RANKS (deck, k)"]
    by (simp add: p generateDeck_ranks_keys)
qed

lemma generateDeck_keys:
  "map (\<lambda>c. (suit c, rank c)) (fst (generateDeck tag rnd k)) = List.product SUITS RANKS"
  by (simp add: generateDeck_def generateDeck_suits_keys product_concat_map)

lemma shuffleDeck_mset:
  "rnd_ok rnd \<Longrightarrow> mset (fst (shuffleDeck rnd k deck)) = mset deck"
  by (simp add: shuffleDeck_def fisherYates_mset)

lemma dealRow_eq:
  "n \<le> length deck \<Longrightarrow>
   dealRow n deck row
     = Inr (row @ map toCell (take n (rev deck)), take (length deck - n) deck)"
proof (induction n arbitrary: deck row)
  case 0
  show ?case by simp
next
  case (Suc n)
  then have ne: "deck \<noteq> []" by auto
  then have deck: "deck = butlast deck @ [last deck]" by simp
  have rev: "rev deck = last deck # rev (butlast deck)"
    by (subst deck) (simp only: rev_append rev.simps append_Nil append_Cons)
  have n: "n \<le> length (butlast deck)" using Suc.prems by simp
  have rest: "take (length (butlast deck) - n) (butlast deck) = take (length deck - Suc n) deck"
    using ne by (simp add: take_butlast)
  show ?case
    using ne Suc.IH[OF n] rest by (simp add: rev toCell_def Let_def)
qed

lemma dealRows_eq:
  "13 * m \<le> length deck \<Longrightarrow>
   dealRows m deck g
     = Inr (g @ map (\<lambda>i. map toCell (take 13 (drop (13 * i) (rev deck)))) [0..<m])"
proof (induction m arbitrary: deck g)
  case 0
  show ?case by simp
next
  case (Suc m)
  let ?deck' = "take (length deck - 13) deck"
  have row: "dealRow 13 deck [] = Inr (map toCell (take 13 (rev deck)), ?deck')"
    using Suc.prems by (simp add: dealRow_eq)
  have rev': "rev ?deck' = drop 13 (rev deck)"
    using Suc.prems by (simp add: rev_take)
  have "13 * m \<le> length ?deck'" using Suc.prems by simp
  from Suc.IH[OF this, of "g @ [map toCell (take 13 (rev deck))]"]
  have "dealRows m ?deck' (g @ [map toCell (take 13 (rev deck))])
      = Inr (g @ map toCell (take 13 (rev deck))
               # map (\<lambda>i. map toCell (take 13 (drop (13 * Suc i) (rev deck)))) [0..<m])"
    by (simp add: rev' add.commute)
  then show ?case
    by (simp add: row map_upt_Suc del: upt_Suc)
qed

lemma concat_chunks:
  "concat (map (\<lambda>i. map f (take n (drop (n * i) xs))) [0..<m]) = map f (take (n * m) xs)"
proof (induction m)
  case 0
  show ?case by simp
next
  case (Suc m)
  have "take (n * Suc m) xs = take (n * m) xs @ take n (drop (n * m) xs)"
    by (metis mult_Suc_right add.commute take_add)
  with Suc show ?case by simp
qed

lemma cardsOf_toCell: "cardsOf (map toCell xs) = filter (\<lambda>c. rank c \<noteq> ACE) xs"
  by (induction xs) (simp_all add: toCell_def)

lemma count_None_toCell:
  "count_list (map toCell xs) None = length (filter (\<lambda>c. rank c = ACE) xs)"
  by (induction xs) (simp_all add: toCell_def)

lemma initializeBoard_eq:
  assumes "rnd_ok rnd"
  shows "\<exists>deck. initializeBoard tag rnd = Inr (map (\<lambda>i. map toCell (take 13 (drop (13 * i) deck))) [0..<4])
           \<and> mset (map (\<lambda>c. (suit c, rank c)) deck) = mset (List.product SUITS RANKS)"
proof -
  define deck0 where "deck0 = fst (generateDeck tag rnd 0)"
  define k0 where "k0 = snd (generateDeck tag rnd 0)"
  define deck where "deck = fst (shuffleDeck rnd k0 deck0)"
  have "mset deck = mset deck0"
    by (simp add: deck_def shuffleDeck_mset[OF assms])
  then have keys: "mset (map (\<lambda>c. (suit c, rank c)) deck) = mset (List.product SUITS RANKS)"
    by (metis deck0_def generateDeck_keys mset_map)
  then have "length (map (\<lambda>c. (suit c, rank c)) deck) = length (List.product SUITS RANKS)"
    by (rule mset_eq_length)
  then have len: "length deck = 52"
    by (simp add: SUITS_def RANKS_def)
  have "initializeBoard tag rnd = dealRows 4 deck []"
    by (simp add: initializeBoard_def case_prod_beta deck_def k0_def deck0_def)
  also have "\<dots> = Inr (map (\<lambda>i. map toCell (take 13 (drop (13 * i) (rev deck)))) [0..<4])"
    using dealRows_eq[of 4 deck "[]"] len by simp
  finally show ?thesis
    using keys by (intro exI[of _ "rev deck"]) (simp flip: rev_map)
qed

lemma deck_keys_facts:
  "length (filter (\<lambda>(s, r). r = ACE) (List.product SUITS RANKS)) = 4"
  "filter (\<lambda>(s, r). r \<noteq> ACE) (List.product SUITS RANKS) = List.product SUITS (butlast RANKS)"
  "distinct (List.product SUITS (butlast RANKS))"
  "length (List.product SUITS (butlast RANKS)) = 48"
  by (simp_all add: SUITS_def RANKS_def distinct_product)

lemma non_ace_keys: "set (List.product SUITS (butlast RANKS)) = {(s, r). r \<noteq> ACE}"
proof -
  have "s \<in> set SUITS" for s
    by (cases s) (simp_all add: SUITS_def)
  moreover have "(r \<in> set (butlast RANKS)) = (r \<noteq> ACE)" for r
    by (cases r) (simp_all add: RANKS_def)
  ultimately show ?thesis by auto
qed

text \<open>C6. With a random source in [0, 1), \<^verbatim>\<open>initializeBoard\<close> returns a grid of four rows
  of thirteen cells with exactly four gaps and 48 cards; the (suit, rank) pairs of the cards
  are pairwise distinct and are exactly the pairs whose rank is not the ace.\<close>

theorem initializeBoard_deck:
  assumes "rnd_ok rnd"
  shows "\<exists>g. initializeBoard tag rnd = Inr g \<and> valid_grid g
       \<and> count_list (concat g) None = 4 \<and> length (cardsOf (concat g)) = 48
       \<and> distinct (map (\<lambda>c. (suit c, rank c)) (cardsOf (concat g)))
       \<and> set (map (\<lambda>c. (suit c, rank c)) (cardsOf (concat g))) = {(s, r). r \<noteq> ACE}
       \<and> (\<forall>c \<in> set (cardsOf (concat g)). rank c \<noteq> ACE)"
proof -
  from initializeBoard_eq[OF assms] obtain deck where
    res0: "initializeBoard tag rnd
            = Inr (map (\<lambda>i. map toCell (take 13 (drop (13 * i) deck))) [0..<4])"
    and keys: "mset (map (\<lambda>c. (suit c, rank c)) deck) = mset (List.product SUITS RANKS)"
    by blast
  define g where "g = map (\<lambda>i. map toCell (take 13 (drop (13 * i) deck))) [0..<4]"
  let ?key = "\<lambda>c. (suit c, rank c)"
  have res: "initializeBoard tag rnd = Inr g"
    using res0 by (simp only: g_def)
  have "length (map ?key deck) = length (List.product SUITS RANKS)"
    using keys by (rule mset_eq_length)
  then have len: "length deck = 52" by (simp add: SUITS_def RANKS_def)
  have "length (map toCell (take 13 (drop (13 * i) deck))) = 13" if "i < 4" for i
    using that len by simp
  then have valid: "valid_grid g"
    unfolding g_def by (simp add: valid_grid_def rows_def cols_def del: upt_Suc)
  have "concat g = map toCell (take (13 * 4) deck)"
    unfolding g_def by (rule concat_chunks)
  then have cells: "concat g = map toCell deck"
    using len by simp
  have "length (filter (\<lambda>c. rank c = ACE) deck)
      = length (filter (\<lambda>(s, r). r = ACE) (map ?key deck))"
    by (simp add: filter_map o_def)
  also have "\<dots> = size (filter_mset (\<lambda>(s, r). r = ACE) (mset (map ?key deck)))"
    by (simp only: mset_filter[symmetric] size_mset)
  also have "\<dots> = 4"
    by (simp only: keys) (simp only: mset_filter[symmetric] size_mset deck_keys_facts)
  finally have gaps: "count_list (concat g) None = 4"
    by (simp add: cells count_None_toCell)
  have "map ?key (cardsOf (concat g)) = filter (\<lambda>(s, r). r \<noteq> ACE) (map ?key deck)"
    by (simp add: cells cardsOf_toCell filter_map o_def)
  then have "mset (map ?key (cardsOf (concat g)))
      = filter_mset (\<lambda>(s, r). r \<noteq> ACE) (mset (map ?key deck))"
    by (simp only: mset_filter)
  also have "\<dots> = mset (List.product SUITS (butlast RANKS))"
    by (simp only: keys) (simp only: mset_filter[symmetric] deck_keys_facts)
  finally have m: "mset (map ?key (cardsOf (concat g))) = mset (List.product SUITS (butlast RANKS))" .
  have d: "distinct (map ?key (cardsOf (concat g)))"
    using m deck_keys_facts(3) by (metis mset_eq_imp_distinct_iff)
  have s: "set (map ?key (cardsOf (concat g))) = {(s, r). r \<noteq> ACE}"
    using mset_eq_setD[OF m] by (simp only: non_ace_keys)
  have "length (map ?key (cardsOf (concat g))) = length (List.product SUITS (butlast RANKS))"
    using m by (rule mset_eq_length)
  then have n: "length (cardsOf (concat g)) = 48"
    by (simp only: length_map deck_keys_facts(4))
  have a: "\<forall>c \<in> set (cardsOf (concat g)). rank c \<noteq> ACE"
    by (simp add: cells cardsOf_toCell)
  show ?thesis
    by (intro exI[of _ g] conjI res valid gaps n d s a)
qed

theorem initializeBoard_deck_witness:
  "rnd_ok (\<lambda>k. 1 / 2) \<and>
   (\<exists>g. initializeBoard (\<lambda>x. []) (\<lambda>k. 1 / 2) = Inr g \<and> valid_grid g
       \<and> count_list (concat g) None = 4 \<and> length (cardsOf (concat g)) = 48
       \<and> distinct (map (\<lambda>c. (suit c, rank c)) (cardsOf (concat g))))"
  using initializeBoard_deck [OF rnd_ok_half, of "\<lambda>x. []"] rnd_ok_half
  by blast

section \<open>Frame properties on the store\<close>

lemma tracks_rowsOf: "tracks s0 g rs s \<Longrightarrow> rowsOf s g = rs"
  by (simp add: tracks_def rowsOf_def)

lemma tracks_length: "tracks s0 g rs s \<Longrightarrow> length (readGrid s g) = length rs"
  by (simp add: readGrid_def tracks_rowsOf)

lemma tracks_row: "tracks s0 g rs s \<Longrightarrow> r < length rs \<Longrightarrow> readGrid s g ! r = cellsOf s (rs ! r)"
  by (simp add: readGrid_def tracks_rowsOf)

lemma writeCell_tracks:
  assumes "tracks s0 g rs s" "r < length rs"
  shows "tracks s0 g rs (writeCell s (rs ! r) c v)"
  using assms by (auto simp: tracks_def writeCell_def)

lemma writeCell_readGrid:
  assumes "tracks s0 g rs s" "r < length rs"
  shows "readGrid (writeCell s (rs ! r) c v) g = setCell (readGrid s g) r c v"
proof -
  have rows': "rowsOf (writeCell s (rs ! r) c v) g = rs"
    using tracks_rowsOf[OF writeCell_tracks[OF assms]] .
  have d: "distinct rs" using assms(1) by (simp add: tracks_def)
  have cells: "cellsOf (writeCell s (rs ! r) c v) (rs ! i)
      = (if i = r then setAt (cellsOf s (rs ! r)) c v else cellsOf s (rs ! i))"
    if "i < length rs" for i
    using that assms(2) d by (auto simp: cellsOf_def writeCell_def nth_eq_iff_index_eq)
  show ?thesis
    using assms(2) cells
    by (intro nth_equalityI)
      (auto simp: readGrid_def rows' tracks_rowsOf[OF assms(1)] setCell_def nth_list_update)
qed

lemma collect_st_sim:
  assumes "tracks s0 g rs (st_store st)" "r < length rs"
  shows "tracks s0 g rs (st_store (collect_st g r c st))"
    and "absScan g (collect_st g r c st) = collect r c (absScan g st)"
    and "st_positions (collect_st g r c st) = st_positions st @ [(r, c)]"
  using assms writeCell_tracks[OF assms] writeCell_readGrid[OF assms]
  by (simp_all add: collect_st_def collect_def absScan_def Let_def tracks_rowsOf tracks_row
      split: option.splits)

lemma scanCell_st_sim:
  assumes "tracks s0 g rs (st_store st)" "r < length rs"
    and "\<forall>p \<in> set (st_positions st). fst p < length rs"
  shows "tracks s0 g rs (st_store (snd (scanCell_st g r c (b, st))))"
    and "map_prod id (absScan g) (scanCell_st g r c (b, st)) = scanCell r c (b, absScan g st)"
    and "\<forall>p \<in> set (st_positions (snd (scanCell_st g r c (b, st)))). fst p < length rs"
proof -
  have cells: "newGrid (absScan g st) ! r = cellsOf (st_store st) (rowsOf (st_store st) g ! r)"
    using assms(1,2) by (simp add: absScan_def tracks_row tracks_rowsOf)
  note c = collect_st_sim[OF assms(1,2)]
  show "tracks s0 g rs (st_store (snd (scanCell_st g r c (b, st))))"
    using assms(1) c(1) by (auto simp: scanCell_st_def Let_def split: option.splits)
  show "map_prod id (absScan g) (scanCell_st g r c (b, st)) = scanCell r c (b, absScan g st)"
    using c(2) by (auto simp: scanCell_st_def scanCell_def cells Let_def split: option.splits)
  show "\<forall>p \<in> set (st_positions (snd (scanCell_st g r c (b, st)))). fst p < length rs"
    using assms(2,3) c(3) by (auto simp: scanCell_st_def Let_def split: option.splits)
qed

lemma fold_scanCell_st_sim:
  assumes "r < length rs"
  shows "tracks s0 g rs (st_store st) \<Longrightarrow> \<forall>p \<in> set (st_positions st). fst p < length rs \<Longrightarrow>
     tracks s0 g rs (st_store (snd (fold (scanCell_st g r) cs (b, st))))
     \<and> map_prod id (absScan g) (fold (scanCell_st g r) cs (b, st))
         = fold (scanCell r) cs (b, absScan g st)
     \<and> (\<forall>p \<in> set (st_positions (snd (fold (scanCell_st g r) cs (b, st)))). fst p < length rs)"
proof (induction cs arbitrary: b st)
  case Nil
  then show ?case by simp
next
  case (Cons c cs)
  obtain b' st' where step: "scanCell_st g r c (b, st) = (b', st')"
    by (cases "scanCell_st g r c (b, st)")
  from scanCell_st_sim[OF Cons.prems(1) assms Cons.prems(2), of c b] step
  have t: "tracks s0 g rs (st_store st')"
    and a: "scanCell r c (b, absScan g st) = (b', absScan g st')"
    and p: "\<forall>p \<in> set (st_positions st'). fst p < length rs"
    by simp_all
  from Cons.IH[OF t p, of b'] step a show ?case by simp
qed

lemma scanRow_st_sim:
  assumes "tracks s0 g rs (st_store st)" "\<forall>p \<in> set (st_positions st). fst p < length rs"
  shows "map_sum id (absScan g) (scanRow_st g r st) = scanRow r (absScan g st)"
    and "scanRow_st g r st = Inr st' \<Longrightarrow>
           tracks s0 g rs (st_store st') \<and> (\<forall>p \<in> set (st_positions st'). fst p < length rs)"
proof -
  have len: "length (newGrid (absScan g st)) = length rs"
    "length (rowsOf (st_store st) g) = length rs"
    using assms(1) by (simp_all add: absScan_def tracks_length tracks_rowsOf)
  show "map_sum id (absScan g) (scanRow_st g r st) = scanRow r (absScan g st)"
  proof (cases "r < length rs")
    case False
    then show ?thesis by (simp add: scanRow_st_def scanRow_def len)
  next
    case True
    have cells: "newGrid (absScan g st) ! r = cellsOf (st_store st) (rowsOf (st_store st) g ! r)"
      using assms(1) True by (simp add: absScan_def tracks_row tracks_rowsOf)
    from fold_scanCell_st_sim[OF True assms]
    have "\<And>cs b. absScan g (snd (fold (scanCell_st g r) cs (b, st)))
        = snd (fold (scanCell r) cs (b, absScan g st))"
      by (metis snd_map_prod)
    then show ?thesis
      using True by (simp add: scanRow_st_def scanRow_def len cells Let_def)
  qed
  show "tracks s0 g rs (st_store st') \<and> (\<forall>p \<in> set (st_positions st'). fst p < length rs)"
    if "scanRow_st g r st = Inr st'"
  proof -
    from that have r: "r < length rs"
      by (auto simp: scanRow_st_def len split: if_splits)
    from that fold_scanCell_st_sim[OF r assms] show ?thesis
      by (auto simp: scanRow_st_def len Let_def split: if_splits)
  qed
qed

lemma scanRows_st_sim:
  "tracks s0 g rs (st_store st) \<Longrightarrow> \<forall>p \<in> set (st_positions st). fst p < length rs \<Longrightarrow>
   map_sum id (absScan g) (fst (scanRows_st g rl st)) = scanRows rl (absScan g st)
   \<and> tracks s0 g rs (snd (scanRows_st g rl st))
   \<and> (\<forall>st'. fst (scanRows_st g rl st) = Inr st' \<longrightarrow>
         st_store st' = snd (scanRows_st g rl st)
         \<and> (\<forall>p \<in> set (st_positions st'). fst p < length rs))"
proof (induction rl arbitrary: st)
  case Nil
  then show ?case by simp
next
  case (Cons r rl)
  note sim = scanRow_st_sim[OF Cons.prems, of r]
  show ?case
  proof (cases "scanRow_st g r st")
    case (Inl e)
    with sim(1) have "scanRow r (absScan g st) = Inl e" by simp
    with Inl Cons.prems show ?thesis by simp
  next
    case (Inr st')
    with sim(1) have pure: "scanRow r (absScan g st) = Inr (absScan g st')" by simp
    from sim(2)[OF Inr] Cons.IH[of st'] Inr pure show ?thesis by simp
  qed
qed

lemma assignBack_st_sim:
  "tracks s0 g rs s \<Longrightarrow> \<forall>p \<in> set ps. fst p < length rs \<Longrightarrow>
   tracks s0 g rs (assignBack_st g ps idx fillItems s)
   \<and> readGrid (assignBack_st g ps idx fillItems s) g = assignBack ps idx fillItems (readGrid s g)"
proof (induction ps arbitrary: idx s)
  case Nil
  then show ?case by simp
next
  case (Cons p ps)
  obtain r c where p: "p = (r, c)" by (cases p)
  with Cons.prems have r: "r < length rs" by simp
  let ?s = "writeCell s (rs ! r) c (cellAt fillItems idx)"
  have t: "tracks s0 g rs ?s" using writeCell_tracks[OF Cons.prems(1) r] .
  have rd: "readGrid ?s g = setCell (readGrid s g) r c (cellAt fillItems idx)"
    using writeCell_readGrid[OF Cons.prems(1) r] .
  from Cons.IH[OF t, of "idx + 1"] Cons.prems(2) rd p show ?case
    by (simp add: tracks_rowsOf[OF Cons.prems(1)])
qed

lemma alloc_simps:
  "fst (alloc ob s) = next_ref s"
  "next_ref (snd (alloc ob s)) = Suc (next_ref s)"
  "heap (snd (alloc ob s)) = (heap s)(next_ref s \<mapsto> ob)"
  by (simp_all add: alloc_def)

lemma copyRows_eq:
  "\<forall>a \<in> set as. a < next_ref s \<Longrightarrow>
   fst (copyRows as s) = [next_ref s..<next_ref s + length as]
   \<and> next_ref (snd (copyRows as s)) = next_ref s + length as
   \<and> (\<forall>b. b < next_ref s \<or> next_ref s + length as \<le> b \<longrightarrow> heap (snd (copyRows as s)) b = heap s b)
   \<and> (\<forall>i<length as. heap (snd (copyRows as s)) (next_ref s + i)
          = Some (RowArray (cellsOf s (as ! i))))"
proof (induction as arbitrary: s)
  case Nil
  show ?case by simp
next
  case (Cons a as)
  let ?s1 = "snd (alloc (RowArray (cellsOf s a)) s)"
  let ?s2 = "snd (copyRows as ?s1)"
  have old: "\<forall>a \<in> set as. a < next_ref ?s1"
    using Cons.prems by (auto simp: alloc_simps)
  note IH = Cons.IH[OF old]
  have fst_cp: "fst (copyRows (a # as) s) = next_ref s # fst (copyRows as ?s1)"
    and snd_cp: "snd (copyRows (a # as) s) = ?s2"
    by (simp_all add: case_prod_beta alloc_simps)
  have refs: "fst (copyRows as ?s1) = [Suc (next_ref s)..<Suc (next_ref s) + length as]"
    and nxt: "next_ref ?s2 = Suc (next_ref s) + length as"
    using IH by (simp_all add: alloc_simps del: upt_Suc)
  have same: "cellsOf ?s1 b = cellsOf s b" if "b < next_ref s" for b
    using that by (simp add: cellsOf_def alloc_simps)
  have cells: "heap ?s2 (next_ref s + i) = Some (RowArray (cellsOf s ((a # as) ! i)))"
    if "i < length (a # as)" for i
  proof (cases i)
    case 0
    with IH show ?thesis by (simp add: alloc_simps)
  next
    case (Suc j)
    with that have j: "j < length as" by simp
    then have "as ! j < next_ref s" using Cons.prems by simp
    with IH j Suc show ?thesis by (simp add: alloc_simps same)
  qed
  have frame: "heap ?s2 b = heap s b"
    if "b < next_ref s \<or> next_ref s + length (a # as) \<le> b" for b
    using that IH by (auto simp: alloc_simps)
  have "next_ref s # [Suc (next_ref s)..<Suc (next_ref s) + length as]
      = [next_ref s..<next_ref s + length (a # as)]"
    by (simp add: upt_conv_Cons del: upt_Suc)
  then have 1: "fst (copyRows (a # as) s) = [next_ref s..<next_ref s + length (a # as)]"
    by (simp only: fst_cp refs)
  have 2: "next_ref (snd (copyRows (a # as) s)) = next_ref s + length (a # as)"
    by (simp only: snd_cp nxt) simp
  show ?case
    using 1 2 cells frame by (simp only: snd_cp) blast
qed

lemma wf_grid_old:
  assumes "wf_grid s g"
  shows "g < next_ref s" and "\<forall>a \<in> set (rowsOf s g). a < next_ref s"
proof -
  from assms obtain rs where g: "heap s g = Some (GridArray rs)"
    and rows: "\<forall>a \<in> set rs. \<exists>cells. heap s a = Some (RowArray cells)"
    and top: "\<forall>a. next_ref s \<le> a \<longrightarrow> heap s a = None"
    by (auto simp: wf_grid_def)
  from g top show "g < next_ref s" by (metis not_le option.distinct(1))
  have "rowsOf s g = rs" using g by (simp add: rowsOf_def)
  moreover have "a < next_ref s" if "a \<in> set rs" for a
    using that rows top by (metis not_le option.distinct(1))
  ultimately show "\<forall>a \<in> set (rowsOf s g). a < next_ref s" by simp
qed

lemma copyGrid_eq:
  assumes "wf_grid s g"
  defines "n \<equiv> length (rowsOf s g)"
  defines "s1 \<equiv> snd (copyGrid g s)"
  shows "fst (copyGrid g s) = next_ref s + n"
    and "tracks s1 (next_ref s + n) [next_ref s..<next_ref s + n] s1"
    and "readGrid s1 (next_ref s + n) = readGrid s g"
    and "\<forall>b. b < next_ref s \<longrightarrow> heap s1 b = heap s b"
proof -
  let ?rs = "rowsOf s g"
  let ?rs' = "[next_ref s..<next_ref s + n]"
  let ?sc = "snd (copyRows ?rs s)"
  note old = wf_grid_old[OF assms(1)]
  from copyRows_eq[OF old(2)]
  have refs: "fst (copyRows ?rs s) = ?rs'"
    and nxt: "next_ref ?sc = next_ref s + n"
    and frame: "\<forall>b. b < next_ref s \<or> next_ref s + n \<le> b \<longrightarrow> heap ?sc b = heap s b"
    and cells: "\<forall>i<n. heap ?sc (next_ref s + i) = Some (RowArray (cellsOf s (?rs ! i)))"
    by (simp_all add: n_def)
  have s1: "heap s1 = (heap ?sc)(next_ref s + n \<mapsto> GridArray ?rs')" "next_ref s1 = Suc (next_ref s + n)"
    by (simp_all add: s1_def copyGrid_def case_prod_beta alloc_simps refs nxt)
  show "fst (copyGrid g s) = next_ref s + n"
    by (simp add: copyGrid_def case_prod_beta alloc_simps nxt)
  have rows: "\<exists>cells. heap s1 a = Some (RowArray cells)" if "a \<in> set ?rs'" for a
  proof -
    from that obtain i where "i < n" "a = next_ref s + i"
      by (auto simp: nat_le_iff_add)
    with cells show ?thesis by (simp add: s1)
  qed
  show "tracks s1 (next_ref s + n) ?rs' s1"
    using rows by (simp add: tracks_def s1(1))
  show "readGrid s1 (next_ref s + n) = readGrid s g"
  proof (rule nth_equalityI)
    show "length (readGrid s1 (next_ref s + n)) = length (readGrid s g)"
      by (simp add: readGrid_def rowsOf_def s1(1) n_def)
  next
    fix i assume "i < length (readGrid s1 (next_ref s + n))"
    then have i: "i < n" by (simp add: readGrid_def rowsOf_def s1(1))
    then have "cellsOf s1 (next_ref s + i) = cellsOf s (?rs ! i)"
      using cells by (simp add: cellsOf_def s1(1))
    with i show "readGrid s1 (next_ref s + n) ! i = readGrid s g ! i"
      by (simp add: readGrid_def rowsOf_def[of s1] s1(1) n_def)
  qed
  show "\<forall>b. b < next_ref s \<longrightarrow> heap s1 b = heap s b"
    using frame by (simp add: s1(1))
qed

lemma reshuffleBoard_unfold:
  "reshuffleBoard rnd G =
     (case collectFree G of
        Inl e \<Rightarrow> Inl e
      | Inr st \<Rightarrow>
          Inr (assignBack (positionsToFill st) 0
                 (fillItemsOf rnd (cardsToShuffle st) (length (positionsToFill st))) (newGrid st)))"
  by (simp add: reshuffleBoard_def fillItemsOf_def case_prod_beta Let_def split: sum.splits)

lemma reshuffleBoard_st_unfold:
  "reshuffleBoard_st rnd g s =
     (case fst (scanRows_st (fst (copyGrid g s)) [0..<rows]
                  \<lparr> st_store = snd (copyGrid g s), st_cards = [], st_positions = [] \<rparr>) of
        Inl e \<Rightarrow> (Inl e, snd (scanRows_st (fst (copyGrid g s)) [0..<rows]
                  \<lparr> st_store = snd (copyGrid g s), st_cards = [], st_positions = [] \<rparr>))
      | Inr st \<Rightarrow>
          (Inr (fst (copyGrid g s)),
           assignBack_st (fst (copyGrid g s)) (st_positions st) 0
             (fillItemsOf rnd (st_cards st) (length (st_positions st))) (st_store st)))"
  by (simp add: reshuffleBoard_st_def fillItemsOf_def case_prod_beta Let_def split: sum.splits)

lemma reshuffleBoard_st_frame:
  assumes "wf_grid s g"
  defines "ng \<equiv> next_ref s + length (rowsOf s g)"
  defines "rs' \<equiv> [next_ref s..<next_ref s + length (rowsOf s g)]"
  shows "map_sum id (readGrid (snd (reshuffleBoard_st rnd g s))) (fst (reshuffleBoard_st rnd g s))
           = reshuffleBoard rnd (readGrid s g)"
    and "\<forall>b. b < next_ref s \<longrightarrow> heap (snd (reshuffleBoard_st rnd g s)) b = heap s b"
    and "\<forall>g'. fst (reshuffleBoard_st rnd g s) = Inr g' \<longrightarrow>
           g' = ng \<and> rowsOf (snd (reshuffleBoard_st rnd g s)) g' = rs'"
proof -
  define s1 where "s1 = snd (copyGrid g s)"
  define st0 where "st0 = \<lparr> st_store = s1, st_cards = [], st_positions = [] \<rparr>"
  define sr where "sr = scanRows_st ng [0..<rows] st0"
  note cp = copyGrid_eq[OF assms(1), folded ng_def rs'_def s1_def]
  have t0: "tracks s1 ng rs' (st_store st0)" "\<forall>p \<in> set (st_positions st0). fst p < length rs'"
    using cp(2) by (simp_all add: st0_def)
  have abs0: "absScan ng st0
      = \<lparr> newGrid = readGrid s g, cardsToShuffle = [], positionsToFill = [] \<rparr>"
    using cp(3) by (simp add: absScan_def st0_def)
  from scanRows_st_sim[OF t0, of "[0..<rows]"]
  have pure: "map_sum id (absScan ng) (fst sr) = collectFree (readGrid s g)"
    and t1: "tracks s1 ng rs' (snd sr)"
    and fin: "\<forall>st'. fst sr = Inr st' \<longrightarrow>
         st_store st' = snd sr \<and> (\<forall>p \<in> set (st_positions st'). fst p < length rs')"
    by (simp_all add: sr_def abs0 collectFree_def)
  have unf: "reshuffleBoard_st rnd g s =
     (case fst sr of
        Inl e \<Rightarrow> (Inl e, snd sr)
      | Inr st \<Rightarrow>
          (Inr ng, assignBack_st ng (st_positions st) 0
             (fillItemsOf rnd (st_cards st) (length (st_positions st))) (st_store st)))"
    by (simp only: reshuffleBoard_st_unfold cp(1) sr_def st0_def s1_def)
  have old: "heap s' b = heap s b" if "tracks s1 ng rs' s'" "b < next_ref s" for s' b
  proof -
    from that(2) have "b \<notin> set rs'" by (simp add: rs'_def)
    with that(1) have "heap s' b = heap s1 b" by (simp add: tracks_def)
    with cp(4) that(2) show ?thesis by simp
  qed
  have all: "map_sum id (readGrid (snd (reshuffleBoard_st rnd g s))) (fst (reshuffleBoard_st rnd g s))
           = reshuffleBoard rnd (readGrid s g)
   \<and> (\<forall>b. b < next_ref s \<longrightarrow> heap (snd (reshuffleBoard_st rnd g s)) b = heap s b)
   \<and> (\<forall>g'. fst (reshuffleBoard_st rnd g s) = Inr g' \<longrightarrow>
           g' = ng \<and> rowsOf (snd (reshuffleBoard_st rnd g s)) g' = rs')"
  proof (cases "fst sr")
    case (Inl e)
    with pure have "collectFree (readGrid s g) = Inl e" by simp
    with Inl unf old[OF t1] show ?thesis
      by (simp add: reshuffleBoard_unfold)
  next
    case (Inr st)
    with pure have pure': "collectFree (readGrid s g) = Inr (absScan ng st)" by simp
    from fin Inr t1 have t: "tracks s1 ng rs' (st_store st)"
      and p: "\<forall>p \<in> set (st_positions st). fst p < length rs'"
      by simp_all
    let ?items = "fillItemsOf rnd (st_cards st) (length (st_positions st))"
    let ?s' = "assignBack_st ng (st_positions st) 0 ?items (st_store st)"
    from assignBack_st_sim[OF t p, of 0 ?items]
    have t': "tracks s1 ng rs' ?s'"
      and rd: "readGrid ?s' ng = assignBack (st_positions st) 0 ?items (readGrid (st_store st) ng)"
      by simp_all
    have res: "reshuffleBoard_st rnd g s = (Inr ng, ?s')"
      using unf Inr by simp
    have "map_sum id (readGrid (snd (reshuffleBoard_st rnd g s))) (fst (reshuffleBoard_st rnd g s))
           = reshuffleBoard rnd (readGrid s g)"
      by (simp add: res rd reshuffleBoard_unfold pure' absScan_def)
    moreover have "\<forall>b. b < next_ref s \<longrightarrow> heap (snd (reshuffleBoard_st rnd g s)) b = heap s b"
      using old[OF t'] by (simp add: res)
    moreover have "\<forall>g'. fst (reshuffleBoard_st rnd g s) = Inr g' \<longrightarrow>
           g' = ng \<and> rowsOf (snd (reshuffleBoard_st rnd g s)) g' = rs'"
      using tracks_rowsOf[OF t'] by (simp add: res)
    ultimately show ?thesis by blast
  qed
  from all show "map_sum id (readGrid (snd (reshuffleBoard_st rnd g s))) (fst (reshuffleBoard_st rnd g s))
           = reshuffleBoard rnd (readGrid s g)"
    and "\<forall>b. b < next_ref s \<longrightarrow> heap (snd (reshuffleBoard_st rnd g s)) b = heap s b"
    and "\<forall>g'. fst (reshuffleBoard_st rnd g s) = Inr g' \<longrightarrow>
           g' = ng \<and> rowsOf (snd (reshuffleBoard_st rnd g s)) g' = rs'"
    by simp_all
qed

lemma openingStore_grid: "readGrid openingStore 4 = openingGrid"
  by (simp add: readGrid_def openingStore_def rowsOf_def cellsOf_def openingGrid_def)

lemma openingStore_wf: "wf_grid openingStore 4"
  by (simp add: wf_grid_def openingStore_def)

text \<open>C9. The four queries return the store they were given. \<^verbatim>\<open>reshuffleBoard\<close> leaves
  every object of the store it was given as it was, so the input grid reads as before; the
  grid it returns is a new grid array whose row arrays are new and pairwise distinct, none
  of them a row array of the input grid, and it holds the value that the function computes
  on grid values.\<close>

theorem engine_frame:
  assumes "wf_grid s g"
  shows "snd (canPlaceCard_st crd row col g s) = s
       \<and> snd (checkWinCondition_st g s) = s
       \<and> snd (calculateScore_st g s) = s
       \<and> snd (getLockedCards_st g s) = s
       \<and> (\<forall>b. b < next_ref s \<longrightarrow> heap (snd (reshuffleBoard_st rnd g s)) b = heap s b)
       \<and> readGrid (snd (reshuffleBoard_st rnd g s)) g = readGrid s g
       \<and> map_sum id (readGrid (snd (reshuffleBoard_st rnd g s))) (fst (reshuffleBoard_st rnd g s))
           = reshuffleBoard rnd (readGrid s g)
       \<and> (\<forall>g'. fst (reshuffleBoard_st rnd g s) = Inr g' \<longrightarrow>
             heap s g' = None
             \<and> distinct (rowsOf (snd (reshuffleBoard_st rnd g s)) g')
             \<and> (\<forall>a \<in> set (rowsOf (snd (reshuffleBoard_st rnd g s)) g'). heap s a = None)
             \<and> set (rowsOf (snd (reshuffleBoard_st rnd g s)) g') \<inter> set (rowsOf s g) = {})"
proof -
  let ?s' = "snd (reshuffleBoard_st rnd g s)"
  note fr = reshuffleBoard_st_frame[OF assms, of rnd]
  note old = wf_grid_old[OF assms]
  have top: "\<forall>a. next_ref s \<le> a \<longrightarrow> heap s a = None"
    using assms by (simp add: wf_grid_def)
  have rows_same: "rowsOf ?s' g = rowsOf s g"
    using fr(2) old(1) by (simp add: rowsOf_def)
  have "cellsOf ?s' a = cellsOf s a" if "a \<in> set (rowsOf s g)" for a
    using that fr(2) old(2) by (simp add: cellsOf_def)
  then have same: "readGrid ?s' g = readGrid s g"
    by (simp add: readGrid_def rows_same)
  have fresh: "heap s g' = None
             \<and> distinct (rowsOf ?s' g')
             \<and> (\<forall>a \<in> set (rowsOf ?s' g'). heap s a = None)
             \<and> set (rowsOf ?s' g') \<inter> set (rowsOf s g) = {}"
    if "fst (reshuffleBoard_st rnd g s) = Inr g'" for g'
  proof -
    from fr(3) that have g': "g' = next_ref s + length (rowsOf s g)"
      and rows: "rowsOf ?s' g' = [next_ref s..<next_ref s + length (rowsOf s g)]"
      by blast+
    have "heap s g' = None" using top g' by simp
    moreover have "\<forall>a \<in> set (rowsOf ?s' g'). heap s a = None"
      using top by (simp add: rows)
    moreover have "set (rowsOf ?s' g') \<inter> set (rowsOf s g) = {}"
      using old(2) by (auto simp: rows)
    ultimately show ?thesis by (simp add: rows)
  qed
  show ?thesis
    using fr(1,2) same fresh
    by (simp add: canPlaceCard_st_def checkWinCondition_st_def calculateScore_st_def
        getLockedCards_st_def)
qed

theorem engine_frame_witness:
  "wf_grid openingStore 4 \<and> readGrid openingStore 4 = openingGrid \<and>
   readGrid (snd (reshuffleBoard_st (\<lambda>k. 1 / 2) 4 openingStore)) 4 = openingGrid \<and>
   map_sum id (readGrid (snd (reshuffleBoard_st (\<lambda>k. 1 / 2) 4 openingStore)))
       (fst (reshuffleBoard_st (\<lambda>k. 1 / 2) 4 openingStore))
     = reshuffleBoard (\<lambda>k. 1 / 2) openingGrid"
  using engine_frame [OF openingStore_wf, of _ _ _ "\<lambda>k. 1 / 2"] openingStore_wf
    openingStore_grid
  by simp

end
